theory Spec2Isabelle
  imports
    Main
    "HOL-Library.AList"
    "HOL-Library.Char_ord"
    "HOL-Library.List_Lexorder"
    "HOL-Library.Multiset"
begin

section \<open>Python values, exceptions and printed diagnostics\<close>

text \<open>
  The values that occur as dictionary values and tuple elements in \<open>etl_script.py\<close>:
  \<open>None\<close> (the text of an empty XML element, a JSON null), integers (unbounded, as in
  Python) and strings. Strings are lists of 8-bit characters, read as code points below
  256; code points above 255, JSON floats, booleans, arrays and nested objects are
  outside the model.
\<close>

datatype pyval = PNone | PInt int | PStr string

text \<open>The exceptions the modelled code can raise. An uncaught exception aborts the call.\<close>

datatype error = IndexError | ValueError | TypeError | KeyError

type_synonym row = "(string \<times> pyval) list"

text \<open>
  What the three \<open>print\<close> calls report: the offending value, the path, the column
  and, by format, the line number of the reader, the whole field or nothing more.
\<close>

datatype diag =
    CsvDiag string string string nat
  | JsonDiag string string string row
  | XmlDiag string string string

text \<open>
  The attributes of \<open>ExtractTransformLoad\<close>, and the standard output the reading methods
  print to. A \<open>dict\<close> is an association list (insertion order, distinct keys, as
  \<open>AList.update\<close> keeps it); a Python \<open>set\<close> is a HOL set.
\<close>

record etl =
  rows :: "row list"
  columns :: "string set"
  common_columns :: "string set list"
  printed :: "diag list"

definition init :: etl where
  "init = \<lparr>rows = [], columns = {}, common_columns = [], printed = []\<rparr>"

definition py_get :: "row \<Rightarrow> string \<Rightarrow> pyval \<Rightarrow> pyval" where
  "py_get r k dflt = (case map_of r k of None \<Rightarrow> dflt | Some v \<Rightarrow> v)"

section \<open>The built-in \<open>int\<close> on a string\<close>

text \<open>
  \<open>int(s)\<close> in base ten: whitespace is stripped on both sides, then an optional sign,
  then decimal digits, where single underscores may stand between digits. Anything else
  raises \<open>ValueError\<close> (the result \<open>None\<close> here). So does a string with more digits
  than the interpreter's limit \<open>sys.get_int_max_str_digits()\<close>, 4300 unless configured
  otherwise; underscores, the sign and the whitespace do not count as digits.
\<close>

definition max_str_digits :: nat where
  "max_str_digits = 4300"

definition is_space :: "char \<Rightarrow> bool" where
  "is_space c =
     (let n = (of_char c :: nat) in (9 \<le> n \<and> n \<le> 13) \<or> n = 32 \<or> n = 133 \<or> n = 160)"

definition digit_of :: "char \<Rightarrow> nat option" where
  "digit_of c =
     (let n = (of_char c :: nat) in if 48 \<le> n \<and> n \<le> 57 then Some (n - 48) else None)"

fun digits_val :: "string \<Rightarrow> nat \<Rightarrow> nat option" where
  "digits_val [] acc = Some acc"
| "digits_val [c] acc =
     (case digit_of c of None \<Rightarrow> None | Some v \<Rightarrow> Some (10 * acc + v))"
| "digits_val (c # d # ds) acc =
     (if c = CHR ''_'' then
        (case digit_of d of None \<Rightarrow> None | Some v \<Rightarrow> digits_val ds (10 * acc + v))
      else
        (case digit_of c of None \<Rightarrow> None | Some v \<Rightarrow> digits_val (d # ds) (10 * acc + v)))"

definition unsigned_val :: "string \<Rightarrow> nat option" where
  "unsigned_val s =
     (if max_str_digits < length (filter (\<lambda>c. digit_of c \<noteq> None) s) then None
      else
        (case s of
           [] \<Rightarrow> None
         | c # cs \<Rightarrow> (case digit_of c of None \<Rightarrow> None | Some v \<Rightarrow> digits_val cs v)))"

definition strip :: "string \<Rightarrow> string" where
  "strip s = rev (dropWhile is_space (rev (dropWhile is_space s)))"

definition py_int :: "string \<Rightarrow> int option" where
  "py_int s =
     (case strip s of
        [] \<Rightarrow> None
      | c # cs \<Rightarrow>
          if c = CHR ''-'' then map_option (\<lambda>n. - int n) (unsigned_val cs)
          else if c = CHR ''+'' then map_option int (unsigned_val cs)
          else map_option int (unsigned_val (c # cs)))"

section \<open>The reading methods\<close>

text \<open>
  The decoders (\<open>csv.reader\<close>, \<open>json.load\<close>, \<open>ElementTree\<close>) are library code; each
  method is modelled on what its decoder hands over. For \<open>read_csv\<close> that is the
  sequence of rows, each with the reader's \<open>line_num\<close> at that row.
\<close>

fun read_csv_fields ::
  "string \<Rightarrow> nat \<Rightarrow> (string \<times> string) list \<Rightarrow> row \<Rightarrow> diag list \<Rightarrow> error + (row \<times> diag list)"
where
  "read_csv_fields path ln [] new_row out = Inr (new_row, out)"
| "read_csv_fields path ln ((key, val) # kvs) new_row out =
     (case key of
        [] \<Rightarrow> Inl IndexError
      | k0 # _ \<Rightarrow>
          if k0 = CHR ''D'' then
            read_csv_fields path ln kvs (AList.update key (PStr val) new_row) out
          else if k0 = CHR ''M'' then
            (case py_int val of
               None \<Rightarrow> read_csv_fields path ln kvs new_row (out @ [CsvDiag val path key ln])
             | Some ival \<Rightarrow>
                 read_csv_fields path ln kvs (AList.update key (PInt ival) new_row) out)
          else read_csv_fields path ln kvs new_row out)"

text \<open>
  The local \<open>columns\<close> starts as \<open>None\<close>; \<open>not columns\<close> holds for \<open>None\<close> and for
  the empty list alike, so the empty list stands for both.
\<close>

fun read_csv_loop ::
  "string \<Rightarrow> (nat \<times> string list) list \<Rightarrow> string list \<Rightarrow> etl \<Rightarrow> error + etl"
where
  "read_csv_loop path [] cols st = Inr st"
| "read_csv_loop path ((ln, r) # rest) cols st =
     (if cols = [] then
        read_csv_loop path rest r
          (st\<lparr>columns := columns st \<union> set r,
              common_columns := common_columns st @ [set r]\<rparr>)
      else
        (case read_csv_fields path ln (zip cols r) [] [] of
           Inl e \<Rightarrow> Inl e
         | Inr (new_row, out) \<Rightarrow>
             read_csv_loop path rest cols
               (st\<lparr>rows := rows st @ [new_row], printed := printed st @ out\<rparr>)))"

definition read_csv :: "string \<Rightarrow> (nat \<times> string list) list \<Rightarrow> etl \<Rightarrow> error + etl" where
  "read_csv path reader st = read_csv_loop path reader [] st"

text \<open>
  \<open>read_json\<close> is modelled on \<open>data['fields']\<close>, a list of objects, each given by its
  \<open>items()\<close> (its keys distinct, as in a \<open>dict\<close>). The assignment \<open>new_row[key] = val\<close> stands after the \<open>if\<close>, so it also
  runs for an \<open>M\<close> key whose value was coerced, and for a key of any other prefix.
  \<open>int(val)\<close> on a decoded value parses a string, is the identity on an integer and
  raises \<open>TypeError\<close> on \<open>None\<close>, which \<open>except ValueError\<close> does not catch.
\<close>

fun read_json_items ::
  "string \<Rightarrow> row \<Rightarrow> row \<Rightarrow> row \<Rightarrow> string set \<Rightarrow> diag list
     \<Rightarrow> error + (row \<times> string set \<times> diag list)"
where
  "read_json_items path field [] new_row common out = Inr (new_row, common, out)"
| "read_json_items path field ((key, val) # kvs) new_row common out =
     (case key of
        [] \<Rightarrow> Inl IndexError
      | k0 # _ \<Rightarrow>
          if k0 = CHR ''M'' then
            (case val of
               PNone \<Rightarrow> Inl TypeError
             | PInt ival \<Rightarrow>
                 read_json_items path field kvs
                   (AList.update key val (AList.update key (PInt ival) new_row))
                   (insert key common) out
             | PStr s \<Rightarrow>
                 (case py_int s of
                    None \<Rightarrow>
                      read_json_items path field kvs new_row (insert key common)
                        (out @ [JsonDiag s path key field])
                  | Some ival \<Rightarrow>
                      read_json_items path field kvs
                        (AList.update key val (AList.update key (PInt ival) new_row))
                        (insert key common) out))
          else
            read_json_items path field kvs (AList.update key val new_row)
              (insert key common) out)"

fun read_json_fields :: "string \<Rightarrow> row list \<Rightarrow> string set \<Rightarrow> etl \<Rightarrow> error + (string set \<times> etl)"
where
  "read_json_fields path [] common st = Inr (common, st)"
| "read_json_fields path (field # flds) common st =
     (case read_json_items path field field [] common [] of
        Inl e \<Rightarrow> Inl e
      | Inr (new_row, common', out) \<Rightarrow>
          read_json_fields path flds common'
            (st\<lparr>rows := rows st @ [new_row],
                columns := columns st \<union> set (map fst field),
                printed := printed st @ out\<rparr>))"

definition read_json :: "string \<Rightarrow> row list \<Rightarrow> etl \<Rightarrow> error + etl" where
  "read_json path flds st =
     (case read_json_fields path flds {} st of
        Inl e \<Rightarrow> Inl e
      | Inr (common, st') \<Rightarrow>
          Inr (st'\<lparr>common_columns := common_columns st' @ [common]\<rparr>))"

text \<open>
  \<open>read_xml\<close> is modelled on \<open>tree.findall('objects/object')\<close>: each object with its
  \<open>name\<close> attribute, if it has one, and the \<open>text\<close> of each child, \<open>None\<close> for an
  empty child.
\<close>

type_synonym xml_object = "string option \<times> string option list"

fun read_xml_values ::
  "string \<Rightarrow> string \<Rightarrow> string option list \<Rightarrow> row \<Rightarrow> diag list \<Rightarrow> error + (row \<times> diag list)"
where
  "read_xml_values path column [] new_row out = Inr (new_row, out)"
| "read_xml_values path column (val # vals) new_row out =
     (case column of
        [] \<Rightarrow> Inl IndexError
      | c0 # _ \<Rightarrow>
          if c0 = CHR ''D'' then
            read_xml_values path column vals
              (AList.update column (case val of None \<Rightarrow> PNone | Some s \<Rightarrow> PStr s) new_row) out
          else if c0 = CHR ''M'' then
            (case val of
               None \<Rightarrow> Inl TypeError
             | Some s \<Rightarrow>
                 (case py_int s of
                    None \<Rightarrow>
                      read_xml_values path column vals new_row (out @ [XmlDiag s path column])
                  | Some ival \<Rightarrow>
                      read_xml_values path column vals
                        (AList.update column (PInt ival) new_row) out))
          else read_xml_values path column vals new_row out)"

fun read_xml_objects ::
  "string \<Rightarrow> xml_object list \<Rightarrow> row \<Rightarrow> string set \<Rightarrow> etl \<Rightarrow> error + (row \<times> string set \<times> etl)"
where
  "read_xml_objects path [] new_row common st = Inr (new_row, common, st)"
| "read_xml_objects path ((name, vals) # objs) new_row common st =
     (case name of
        None \<Rightarrow> Inl KeyError
      | Some column \<Rightarrow>
          (case read_xml_values path column vals new_row [] of
             Inl e \<Rightarrow> Inl e
           | Inr (new_row', out) \<Rightarrow>
               read_xml_objects path objs new_row' (insert column common)
                 (st\<lparr>columns := insert column (columns st), printed := printed st @ out\<rparr>)))"

definition read_xml :: "string \<Rightarrow> xml_object list \<Rightarrow> etl \<Rightarrow> error + etl" where
  "read_xml path objs st =
     (case read_xml_objects path objs [] {} st of
        Inl e \<Rightarrow> Inl e
      | Inr (new_row, common, st') \<Rightarrow>
          Inr (st'\<lparr>rows := rows st' @ [new_row],
                  common_columns := common_columns st' @ [common]\<rparr>))"

text \<open>A source is one call of a reading method; a run is a sequence of calls.\<close>

datatype source =
    Csv string "(nat \<times> string list) list"
  | Json string "row list"
  | Xml string "xml_object list"

fun ingest :: "source \<Rightarrow> etl \<Rightarrow> error + etl" where
  "ingest (Csv path reader) st = read_csv path reader st"
| "ingest (Json path flds) st = read_json path flds st"
| "ingest (Xml path objs) st = read_xml path objs st"

fun ingest_all :: "source list \<Rightarrow> etl \<Rightarrow> error + etl" where
  "ingest_all [] st = Inr st"
| "ingest_all (s # ss) st =
     (case ingest s st of Inl e \<Rightarrow> Inl e | Inr st' \<Rightarrow> ingest_all ss st')"

section \<open>Resolving the columns\<close>

text \<open>
  Python does not fix the order in which a \<open>for\<close> loop visits a \<open>set\<close>. The two
  properties therefore take that order as an argument \<open>it\<close>: some list without
  repetition of the elements of the set the loop runs over.
\<close>

definition iterates :: "string set \<Rightarrow> string list \<Rightarrow> bool" where
  "iterates S it = (distinct it \<and> set it = S)"

fun split_columns ::
  "string list \<Rightarrow> string list \<Rightarrow> string list \<Rightarrow> error + (string list \<times> string list)"
where
  "split_columns [] d_columns m_columns = Inr (d_columns, m_columns)"
| "split_columns (column # rest) d_columns m_columns =
     (case column of
        [] \<Rightarrow> Inl IndexError
      | c0 # _ \<Rightarrow>
          if c0 = CHR ''D'' then split_columns rest (d_columns @ [column]) m_columns
          else if c0 = CHR ''M'' then split_columns rest d_columns (m_columns @ [column])
          else split_columns rest d_columns m_columns)"

text \<open>
  \<open>sorted(cs, key=lambda y: int(y[1:]))\<close>: the key of every element is computed first
  (one that does not parse raises \<open>ValueError\<close>), then the elements are sorted by key,
  elements of equal key keeping their order.
\<close>

definition sorted_by_suffix :: "string list \<Rightarrow> error + string list" where
  "sorted_by_suffix cs =
     (case those (map (\<lambda>y. py_int (tl y)) cs) of
        None \<Rightarrow> Inl ValueError
      | Some keys \<Rightarrow> Inr (map snd (sort_key fst (zip keys cs))))"

definition d_m_sorted :: "string list \<Rightarrow> error + (string list \<times> string list)" where
  "d_m_sorted it =
     (case split_columns it [] [] of
        Inl e \<Rightarrow> Inl e
      | Inr (d_columns, m_columns) \<Rightarrow>
          (case sorted_by_suffix d_columns of
             Inl e \<Rightarrow> Inl e
           | Inr ds \<Rightarrow>
               (case sorted_by_suffix m_columns of
                  Inl e \<Rightarrow> Inl e
                | Inr ms \<Rightarrow> Inr (ds, ms))))"

text \<open>\<open>it\<close> is the order in which the loop visits \<open>self.columns\<close>.\<close>

definition d_m_sorted_columns :: "string list \<Rightarrow> error + (string list \<times> string list)" where
  "d_m_sorted_columns it = d_m_sorted it"

text \<open>
  The intersection of \<open>common_columns[0]\<close> with every set of \<open>common_columns[1:]\<close>,
  for a non-empty list.
\<close>

definition common_set :: "etl \<Rightarrow> string set" where
  "common_set st =
     (case common_columns st of [] \<Rightarrow> {} | s # ss \<Rightarrow> foldl (\<inter>) s ss)"

text \<open>\<open>it\<close> is the order in which the loop visits the intersection.\<close>

definition d_m_sorted_common_columns ::
  "string list \<Rightarrow> etl \<Rightarrow> error + (string list \<times> string list)"
where
  "d_m_sorted_common_columns it st =
     (if common_columns st = [] then Inr ([], []) else d_m_sorted it)"

text \<open>
  The choice both writing methods make on their flag \<open>common_columns\<close>, and the set
  whose iteration order that choice consumes.
\<close>

definition resolve :: "bool \<Rightarrow> string list \<Rightarrow> etl \<Rightarrow> error + (string list \<times> string list)" where
  "resolve common it st =
     (if common then d_m_sorted_common_columns it st else d_m_sorted_columns it)"

definition resolved_set :: "bool \<Rightarrow> etl \<Rightarrow> string set" where
  "resolved_set common st = (if common then common_set st else columns st)"

section \<open>Ordering Python values\<close>

text \<open>
  Python compares two integers by value and two strings lexicographically by code point;
  \<open><\<close> between any other two of the modelled values raises \<open>TypeError\<close>. The linear
  order below agrees with Python on the pairs Python orders; the sorting functions that
  follow raise \<open>TypeError\<close> before they use it on any other pair.
\<close>

instantiation pyval :: linorder
begin

fun less_eq_pyval :: "pyval \<Rightarrow> pyval \<Rightarrow> bool" where
  "less_eq_pyval PNone v = True"
| "less_eq_pyval (PInt a) PNone = False"
| "less_eq_pyval (PInt a) (PInt b) = (a \<le> b)"
| "less_eq_pyval (PInt a) (PStr t) = True"
| "less_eq_pyval (PStr s) (PStr t) = (s \<le> t)"
| "less_eq_pyval (PStr s) v = False"

definition less_pyval :: "pyval \<Rightarrow> pyval \<Rightarrow> bool" where
  "less_pyval a b = (a \<le> b \<and> \<not> b \<le> a)"

instance
proof
  fix x y z :: pyval
  show "(x < y) = (x \<le> y \<and> \<not> y \<le> x)" by (simp add: less_pyval_def)
  show "x \<le> x" by (cases x) simp_all
  show "x \<le> y \<Longrightarrow> y \<le> z \<Longrightarrow> x \<le> z"
    by (cases x; cases y; cases z) simp_all
  show "x \<le> y \<Longrightarrow> y \<le> x \<Longrightarrow> x = y"
    by (cases x; cases y) simp_all
  show "x \<le> y \<or> y \<le> x"
    by (cases x; cases y) auto
qed

end

fun is_str :: "pyval \<Rightarrow> bool" where
  "is_str (PStr s) = True"
| "is_str v = False"

fun is_int :: "pyval \<Rightarrow> bool" where
  "is_int (PInt i) = True"
| "is_int v = False"

text \<open>
  \<open>sorted(self.rows, key=lambda x: x['D1'])\<close>. The key of every row is computed first:
  a row without \<open>D1\<close> raises \<open>KeyError\<close>. With fewer than two rows nothing is compared.
  With two or more, a sort has to compare every element with another, and some string
  with some integer if both occur, so it raises \<open>TypeError\<close> unless all keys are
  strings or all are integers; then the result is the stable sort by key.
\<close>

definition sorted_rows :: "row list \<Rightarrow> error + row list" where
  "sorted_rows rs =
     (case those (map (\<lambda>x. map_of x ''D1'') rs) of
        None \<Rightarrow> Inl KeyError
      | Some keys \<Rightarrow>
          if length keys \<le> 1 \<or> list_all is_str keys \<or> list_all is_int keys
          then Inr (map snd (sort_key fst (zip keys rs)))
          else Inl TypeError)"

text \<open>
  Python orders two tuples by their first differing position (found with \<open>==\<close>, which
  never raises); \<open><\<close> on the two elements there raises \<open>TypeError\<close> unless both are
  integers or both are strings.
\<close>

fun tuple_comparable :: "pyval list \<Rightarrow> pyval list \<Rightarrow> bool" where
  "tuple_comparable (x # xs) (y # ys) =
     (if x = y then tuple_comparable xs ys
      else (is_int x \<and> is_int y) \<or> (is_str x \<and> is_str y))"
| "tuple_comparable xs ys = True"

text \<open>
  \<open>sorted(data.keys())\<close> on the distinct keys of a dictionary. A sort that returns has
  compared every two keys that end up next to each other, and if those pairs can all be
  compared then so can every pair; so the call raises \<open>TypeError\<close> exactly when two of
  the keys cannot be compared, and returns the keys in ascending order otherwise.
\<close>

definition sorted_keys :: "pyval list list \<Rightarrow> error + pyval list list" where
  "sorted_keys ks =
     (if list_all (\<lambda>a. list_all (tuple_comparable a) ks) ks then Inr (sort ks)
      else Inl TypeError)"

section \<open>The writing methods\<close>

text \<open>
  A report is the sequence of rows handed to \<open>tsv_writer.writerow\<close>, header first; the
  rendering of a cell as text is the \<open>csv\<close> library's. An exception aborts the method:
  the result is then the exception, and what had been written before is not kept.
\<close>

type_synonym report = "pyval list list"

definition out_row :: "string list \<Rightarrow> row \<Rightarrow> pyval list" where
  "out_row cols r = map (\<lambda>col. py_get r col (PStr ''-'')) cols"

definition write_tsv_basic :: "bool \<Rightarrow> string list \<Rightarrow> etl \<Rightarrow> error + report" where
  "write_tsv_basic common it st =
     (case resolve common it st of
        Inl e \<Rightarrow> Inl e
      | Inr (d_columns, m_columns) \<Rightarrow>
          (case sorted_rows (rows st) of
             Inl e \<Rightarrow> Inl e
           | Inr srows \<Rightarrow>
               Inr (map PStr (d_columns @ m_columns)
                    # map (out_row (d_columns @ m_columns)) srows)))"

text \<open>
  \<open>tuple(map(lambda x: x[0] + x[1], zip(val_dict, val)))\<close>: the accumulated sums are
  integers; adding a string or \<open>None\<close> to an integer raises \<open>TypeError\<close>.
\<close>

fun add_vals :: "int list \<Rightarrow> pyval list \<Rightarrow> error + int list" where
  "add_vals (a # as) (PInt b # bs) =
     (case add_vals as bs of Inl e \<Rightarrow> Inl e | Inr cs \<Rightarrow> Inr ((a + b) # cs))"
| "add_vals (a # as) (v # bs) = Inl TypeError"
| "add_vals as bs = Inr []"

type_synonym groups = "(pyval list \<times> int list) list"

fun get_data_loop :: "row list \<Rightarrow> string list \<Rightarrow> string list \<Rightarrow> groups \<Rightarrow> error + groups" where
  "get_data_loop [] d_columns m_columns data = Inr data"
| "get_data_loop (r # rest) d_columns m_columns data =
     (let key = map (\<lambda>x. py_get r x (PStr ''-'')) d_columns;
          val = map (\<lambda>x. py_get r x (PInt 0)) m_columns;
          val_dict = (case map_of data key of
                        None \<Rightarrow> replicate (length m_columns) 0
                      | Some v \<Rightarrow> v)
      in case add_vals val_dict val of
           Inl e \<Rightarrow> Inl e
         | Inr new_val \<Rightarrow> get_data_loop rest d_columns m_columns (AList.update key new_val data))"

definition get_data_advanced :: "etl \<Rightarrow> string list \<Rightarrow> string list \<Rightarrow> error + groups" where
  "get_data_advanced st d_columns m_columns = get_data_loop (rows st) d_columns m_columns []"

text \<open>\<open>f'{v[0]}S{v[1:]}'\<close>; \<open>v[0]\<close> raises \<open>IndexError\<close> on the empty string.\<close>

fun ms_name :: "string \<Rightarrow> error + string" where
  "ms_name [] = Inl IndexError"
| "ms_name (c # cs) = Inr (c # CHR ''S'' # cs)"

fun ms_names :: "string list \<Rightarrow> error + string list" where
  "ms_names [] = Inr []"
| "ms_names (v # vs) =
     (case ms_name v of
        Inl e \<Rightarrow> Inl e
      | Inr n \<Rightarrow> (case ms_names vs of Inl e \<Rightarrow> Inl e | Inr ns \<Rightarrow> Inr (n # ns)))"

text \<open>The final loop: \<open>data[key]\<close> raises \<open>KeyError\<close> on a key the dictionary lacks.\<close>

fun advanced_lines :: "groups \<Rightarrow> pyval list list \<Rightarrow> error + report" where
  "advanced_lines data [] = Inr []"
| "advanced_lines data (key # keys) =
     (case map_of data key of
        None \<Rightarrow> Inl KeyError
      | Some sums \<Rightarrow>
          (case advanced_lines data keys of
             Inl e \<Rightarrow> Inl e
           | Inr ls \<Rightarrow> Inr ((key @ map PInt sums) # ls)))"

definition write_tsv_advanced :: "bool \<Rightarrow> string list \<Rightarrow> etl \<Rightarrow> error + report" where
  "write_tsv_advanced common it st =
     (case resolve common it st of
        Inl e \<Rightarrow> Inl e
      | Inr (d_columns, m_columns) \<Rightarrow>
          (case ms_names m_columns of
             Inl e \<Rightarrow> Inl e
           | Inr ms \<Rightarrow>
               (case get_data_advanced st d_columns m_columns of
                  Inl e \<Rightarrow> Inl e
                | Inr data \<Rightarrow>
                    (case sorted_keys (map fst data) of
                       Inl e \<Rightarrow> Inl e
                     | Inr keys \<Rightarrow>
                         (case advanced_lines data keys of
                            Inl e \<Rightarrow> Inl e
                          | Inr ls \<Rightarrow> Inr (map PStr (d_columns @ ms) # ls))))))"

section \<open>Notions the properties are stated with\<close>

text \<open>
  The role of a column name, as every loop of the program tests it on \<open>column[0]\<close>, and
  the integer its suffix \<open>column[1:]\<close> parses to (0 stands in where it does not parse).
\<close>

definition is_d :: "string \<Rightarrow> bool" where
  "is_d c = (case c of [] \<Rightarrow> False | c0 # _ \<Rightarrow> c0 = CHR ''D'')"

definition is_m :: "string \<Rightarrow> bool" where
  "is_m c = (case c of [] \<Rightarrow> False | c0 # _ \<Rightarrow> c0 = CHR ''M'')"

definition suffix_key :: "string \<Rightarrow> int" where
  "suffix_key y = (case py_int (tl y) of None \<Rightarrow> 0 | Some i \<Rightarrow> i)"

text \<open>A non-negative integer literal in the plain sense: a non-empty string of decimal digits.\<close>

definition nonneg_literal :: "string \<Rightarrow> bool" where
  "nonneg_literal s = (s \<noteq> [] \<and> list_all (\<lambda>c. digit_of c \<noteq> None) s)"

text \<open>
  Every set recorded in \<open>common_columns\<close> lies within \<open>columns\<close>: each reading method
  adds the names it records to both.
\<close>

definition cc_inv :: "etl \<Rightarrow> bool" where
  "cc_inv st = (\<forall>s\<in>set (common_columns st). s \<subseteq> columns st)"

text \<open>A row all of whose keys start with \<open>D\<close> or \<open>M\<close>.\<close>

definition dm_keys :: "row \<Rightarrow> bool" where
  "dm_keys r = list_all (\<lambda>k. is_d k \<or> is_m k) (map fst r)"

fun is_json :: "source \<Rightarrow> bool" where
  "is_json (Json path flds) = True"
| "is_json s = False"

text \<open>
  What \<open>read_xml\<close> assigns to \<open>new_row[column]\<close> for one child, if anything: the text
  itself under a \<open>D\<close> column, the parsed integer under an \<open>M\<close> column when the text
  parses. \<open>xml_values c objs\<close> lists, in document order, all that is assigned to column
  \<open>c\<close> over the objects of a document.
\<close>

definition xml_stored :: "string \<Rightarrow> string option \<Rightarrow> pyval option" where
  "xml_stored column val =
     (if is_d column then Some (case val of None \<Rightarrow> PNone | Some s \<Rightarrow> PStr s)
      else if is_m column then
        (case val of None \<Rightarrow> None | Some s \<Rightarrow> map_option PInt (py_int s))
      else None)"

definition xml_values :: "string \<Rightarrow> xml_object list \<Rightarrow> pyval list" where
  "xml_values c objs =
     concat (map (\<lambda>(name, vals).
                    if name = Some c then List.map_filter (xml_stored c) vals else []) objs)"

definition last_option :: "'a list \<Rightarrow> 'a option" where
  "last_option xs = (if xs = [] then None else Some (last xs))"

text \<open>The text under \<open>D1\<close> in a row (empty where the row has none).\<close>

definition d1_text :: "row \<Rightarrow> string" where
  "d1_text r = (case map_of r ''D1'' of Some (PStr s) \<Rightarrow> s | _ \<Rightarrow> [])"

text \<open>
  The Group Key of a row under the dimension columns \<open>d\<close>; the sum, over the rows of
  one key, of the values under a measure column (an absent value counts 0); the rows whose
  values under the measure columns are all integers, so that they can be summed; the keys
  that Python can order; and a measure name with \<open>S\<close> inserted after its first character.
\<close>

definition key_of :: "string list \<Rightarrow> row \<Rightarrow> pyval list" where
  "key_of d r = map (\<lambda>x. py_get r x (PStr ''-'')) d"

definition int_val :: "pyval \<Rightarrow> int" where
  "int_val v = (case v of PInt i \<Rightarrow> i | _ \<Rightarrow> 0)"

definition group_sum :: "row list \<Rightarrow> string list \<Rightarrow> pyval list \<Rightarrow> string \<Rightarrow> int" where
  "group_sum rs d k c =
     sum_list (map (\<lambda>r. int_val (py_get r c (PInt 0))) (filter (\<lambda>r. key_of d r = k) rs))"

definition summable :: "row list \<Rightarrow> string list \<Rightarrow> bool" where
  "summable rs m = list_all (\<lambda>r. list_all (\<lambda>c. is_int (py_get r c (PInt 0))) m) rs"



text \<open>
  The loop invariant of \<open>get_data_advanced\<close>: every accumulated tuple lists, over the
  measure columns, the values of a function that is 0 on the keys not yet met.
\<close>

definition acc_inv :: "groups \<Rightarrow> string list \<Rightarrow> (pyval list \<Rightarrow> string \<Rightarrow> int) \<Rightarrow> bool" where
  "acc_inv data m F =
     ((\<forall>k v. map_of data k = Some v \<longrightarrow> v = map (F k) m) \<and>
      (\<forall>k c. map_of data k = None \<longrightarrow> F k c = 0))"

text \<open>
  One state followed by what further calls add to it; what a single call adds to the
  empty state, and whether it completes.
\<close>

definition etl_append :: "etl \<Rightarrow> etl \<Rightarrow> etl" where
  "etl_append a b =
     \<lparr>rows = rows a @ rows b, columns = columns a \<union> columns b,
      common_columns = common_columns a @ common_columns b, printed = printed a @ printed b\<rparr>"

definition added :: "source \<Rightarrow> etl" where
  "added s = (case ingest s init of Inl e \<Rightarrow> init | Inr b \<Rightarrow> b)"

definition accepted :: "source \<Rightarrow> bool" where
  "accepted s = (case ingest s init of Inl e \<Rightarrow> False | Inr b \<Rightarrow> True)"

text \<open>
  Two outcomes of the aggregation step agree: the same exception, or dictionaries with the
  same value under every key.
\<close>

definition same_groups :: "error + groups \<Rightarrow> error + groups \<Rightarrow> bool" where
  "same_groups x y =
     (case x of
        Inl e \<Rightarrow> (case y of Inl e' \<Rightarrow> e = e' | Inr b \<Rightarrow> False)
      | Inr a \<Rightarrow> (case y of Inl e' \<Rightarrow> False | Inr b \<Rightarrow> map_of a = map_of b))"

text \<open>No two names of one role in the set have the same suffix value.\<close>

definition no_ties :: "string set \<Rightarrow> bool" where
  "no_ties S = (inj_on suffix_key {c \<in> S. is_d c} \<and> inj_on suffix_key {c \<in> S. is_m c})"

section \<open>Auxiliary facts\<close>

subsection \<open>Evaluation\<close>

lemma py_int_lits:
  "py_int ''1'' = Some 1" "py_int ''2'' = Some 2" "py_int ''3'' = Some 3"
  "py_int ''5'' = Some 5" "py_int ''x'' = None"
  by code_simp+

lemma pyval_less [simp]:
  "PStr s < PStr t \<longleftrightarrow> s < t" "PInt a < PInt b \<longleftrightarrow> a < b"
  "PInt a < PStr t" "PNone < PInt a" "PNone < PStr t"
  "\<not> PStr s < PInt a" "\<not> PStr s < PNone" "\<not> PInt a < PNone"
  by (auto simp add: less_pyval_def)

subsection \<open>Keyed sorting and \<open>those\<close>\<close>

lemma those_map_None: "x \<in> set xs \<Longrightarrow> g x = None \<Longrightarrow> those (map g xs) = None"
  by (induction xs) (auto split: option.splits)

lemma those_map_Some:
  "(\<And>x. x \<in> set xs \<Longrightarrow> g x = Some (h x)) \<Longrightarrow> those (map g xs) = Some (map h xs)"
  by (induction xs) (auto split: option.splits)

lemma sort_key_zip_aux:
  "sort_key fst (zip (map f xs) xs) = zip (map f (sort_key f xs)) (sort_key f xs)"
proof (induction xs)
  case Nil
  show ?case by simp
next
  case (Cons x xs)
  have "insort_key fst (f x, x) (zip (map f ys) ys)
          = zip (map f (insort_key f x ys)) (insort_key f x ys)" for ys
    by (induction ys) auto
  with Cons show ?case by simp
qed

lemma sort_key_zip: "map snd (sort_key fst (zip (map f xs) xs)) = sort_key f xs"
  by (simp add: sort_key_zip_aux)

subsection \<open>What resolving computes\<close>

lemma sorted_by_suffix_ok:
  assumes "\<And>c. c \<in> set cs \<Longrightarrow> py_int (tl c) \<noteq> None"
  shows "sorted_by_suffix cs = Inr (sort_key suffix_key cs)"
proof -
  have "those (map (\<lambda>y. py_int (tl y)) cs) = Some (map suffix_key cs)"
    using assms by (intro those_map_Some) (fastforce simp: suffix_key_def)
  then show ?thesis by (simp add: sorted_by_suffix_def sort_key_zip)
qed

lemma sorted_by_suffix_bad:
  assumes "c \<in> set cs" "py_int (tl c) = None"
  shows "sorted_by_suffix cs = Inl ValueError"
  using those_map_None[OF assms(1), of "\<lambda>y. py_int (tl y)"] assms(2)
  by (simp add: sorted_by_suffix_def)

lemma split_columns_bad:
  "[] \<in> set it \<Longrightarrow> split_columns it d m = Inl IndexError"
  by (induction it arbitrary: d m) (auto split: list.splits)

lemma split_columns_ok:
  "[] \<notin> set it \<Longrightarrow> split_columns it d m = Inr (d @ filter is_d it, m @ filter is_m it)"
  by (induction it arbitrary: d m) (auto split: list.splits simp: is_d_def is_m_def)

lemma d_m_sorted_char:
  "d_m_sorted it =
    (if [] \<in> set it then Inl IndexError
     else if \<exists>c\<in>set it. (is_d c \<or> is_m c) \<and> py_int (tl c) = None then Inl ValueError
     else Inr (sort_key suffix_key (filter is_d it), sort_key suffix_key (filter is_m it)))"
proof (cases "[] \<in> set it")
  case True
  then show ?thesis by (simp add: d_m_sorted_def split_columns_bad)
next
  case ne: False
  show ?thesis
  proof (cases "\<exists>c\<in>set it. is_d c \<and> py_int (tl c) = None")
    case True
    then obtain c where "c \<in> set (filter is_d it)" "py_int (tl c) = None" by auto
    from sorted_by_suffix_bad[OF this] ne True show ?thesis
      by (auto simp add: d_m_sorted_def split_columns_ok)
  next
    case dok: False
    then have d: "sorted_by_suffix (filter is_d it) = Inr (sort_key suffix_key (filter is_d it))"
      by (intro sorted_by_suffix_ok) auto
    show ?thesis
    proof (cases "\<exists>c\<in>set it. is_m c \<and> py_int (tl c) = None")
      case True
      then obtain c where "c \<in> set (filter is_m it)" "py_int (tl c) = None" by auto
      from sorted_by_suffix_bad[OF this] ne True d show ?thesis
        by (auto simp add: d_m_sorted_def split_columns_ok)
    next
      case False
      then have m: "sorted_by_suffix (filter is_m it) = Inr (sort_key suffix_key (filter is_m it))"
        by (intro sorted_by_suffix_ok) auto
      from ne dok False d m show ?thesis
        by (auto simp add: d_m_sorted_def split_columns_ok)
    qed
  qed
qed

lemma iterates_mset: "iterates S xs \<Longrightarrow> iterates S ys \<Longrightarrow> mset xs = mset ys"
  using set_eq_iff_mset_eq_distinct[of xs ys] by (simp add: iterates_def)

text \<open>
  Where no two names of one role share a suffix value, the resolved lists do not depend on
  the order in which the set was visited.
\<close>

lemma d_m_sorted_iterates:
  assumes "iterates S xs" "iterates S ys"
    and "inj_on suffix_key {c \<in> S. is_d c}" "inj_on suffix_key {c \<in> S. is_m c}"
  shows "d_m_sorted xs = d_m_sorted ys"
proof -
  have s: "set xs = S" "set ys = S" using assms by (simp_all add: iterates_def)
  have m: "mset xs = mset ys" using assms(1,2) by (rule iterates_mset)
  have k: "sort_key suffix_key (filter P xs) = sort_key suffix_key (filter P ys)"
    if "inj_on suffix_key {c \<in> S. P c}" for P
  proof (rule sort_key_eq_sort_key)
    show "mset (filter P xs) = mset (filter P ys)" using m by (metis mset_filter)
    show "inj_on suffix_key (set (filter P xs))"
      using that s by (simp add: Collect_conj_eq Int_commute)
  qed
  show ?thesis by (simp only: d_m_sorted_char s k[OF assms(3)] k[OF assms(4)])
qed

subsection \<open>Digit strings parse\<close>

lemma digit_not_space: "digit_of c \<noteq> None \<Longrightarrow> \<not> is_space c"
  by (auto simp add: digit_of_def is_space_def Let_def split: if_splits)

lemma digit_not_sign: "digit_of c \<noteq> None \<Longrightarrow> c \<noteq> CHR ''-'' \<and> c \<noteq> CHR ''+'' \<and> c \<noteq> CHR ''_''"
  by (auto simp add: digit_of_def Let_def split: if_splits)

lemma digits_val_digits:
  "list_all (\<lambda>c. digit_of c \<noteq> None) cs \<Longrightarrow> digits_val cs acc \<noteq> None"
  by (induction cs acc rule: digits_val.induct) (auto dest: digit_not_sign)

lemma strip_digits:
  assumes "s \<noteq> []" "list_all (\<lambda>c. digit_of c \<noteq> None) s"
  shows "strip s = s"
proof -
  from assms obtain c cs where s: "s = c # cs" by (cases s) auto
  with assms have "digit_of c \<noteq> None" by simp
  then have "\<not> is_space c" by (rule digit_not_space)
  with s have a: "dropWhile is_space s = s" by simp
  from assms have "\<not> is_space (last s)"
    by (intro digit_not_space) (auto simp add: list_all_iff)
  with assms have "dropWhile is_space (rev s) = rev s"
    by (cases "rev s") (auto simp add: last_rev)
  with a show ?thesis by (simp add: strip_def)
qed

lemma filter_digits: "list_all (\<lambda>c. digit_of c \<noteq> None) s \<Longrightarrow> filter (\<lambda>c. digit_of c \<noteq> None) s = s"
  by (induction s) simp_all

lemma nonneg_literal_parses:
  assumes n: "nonneg_literal s" and l: "length s \<le> max_str_digits"
  shows "py_int s \<noteq> None"
proof -
  from n have s: "strip s = s" by (simp add: nonneg_literal_def strip_digits)
  from n have "list_all (\<lambda>c. digit_of c \<noteq> None) s"
    unfolding nonneg_literal_def by (rule conjunct2)
  then have f: "filter (\<lambda>c. digit_of c \<noteq> None) s = s" by (rule filter_digits)
  from n obtain c cs where
    c: "s = c # cs" "digit_of c \<noteq> None" "list_all (\<lambda>c. digit_of c \<noteq> None) cs"
    by (cases s) (auto simp add: nonneg_literal_def)
  have "\<not> max_str_digits < length (filter (\<lambda>c. digit_of c \<noteq> None) s)"
    using l by (simp only: f not_less)
  then have "unsigned_val s = (case digit_of c of None \<Rightarrow> None | Some v \<Rightarrow> digits_val cs v)"
    by (simp only: unsigned_val_def if_False c(1) list.case)
  with c(2) digits_val_digits[OF c(3)] have "unsigned_val s \<noteq> None" by auto
  moreover from s c(1) have "strip (c # cs) = c # cs" by simp
  ultimately show ?thesis
    using c(1) digit_not_sign[OF c(2)] by (auto simp add: py_int_def)
qed

lemma long_literal_rejected:
  assumes n: "nonneg_literal s" and l: "max_str_digits < length s"
  shows "py_int s = None"
proof -
  from n have s: "strip s = s" by (simp add: nonneg_literal_def strip_digits)
  from n have "list_all (\<lambda>c. digit_of c \<noteq> None) s"
    unfolding nonneg_literal_def by (rule conjunct2)
  then have f: "filter (\<lambda>c. digit_of c \<noteq> None) s = s" by (rule filter_digits)
  from n obtain c cs where c: "s = c # cs" "digit_of c \<noteq> None"
    by (cases s) (auto simp add: nonneg_literal_def)
  have "max_str_digits < length (filter (\<lambda>c. digit_of c \<noteq> None) s)"
    using l by (simp only: f)
  then have "unsigned_val s = None" by (simp only: unsigned_val_def if_True)
  moreover from s c(1) have "strip (c # cs) = c # cs" by simp
  ultimately show ?thesis
    using c(1) digit_not_sign[OF c(2)] by (simp add: py_int_def)
qed

lemma common_set_Nil: "common_columns st = [] \<Longrightarrow> common_set st = {}"
  by (simp add: common_set_def)

subsection \<open>What the reading methods keep\<close>

lemma dm_keys_update: "dm_keys r \<Longrightarrow> is_d k \<or> is_m k \<Longrightarrow> dm_keys (AList.update k v r)"
  by (induction r) (auto simp add: dm_keys_def)

lemma read_csv_fields_keys:
  "read_csv_fields path ln kvs new_row out = Inr (r, out') \<Longrightarrow> dm_keys new_row \<Longrightarrow> dm_keys r"
proof (induction kvs arbitrary: new_row out)
  case Nil
  then show ?case by simp
next
  case (Cons kv kvs)
  obtain key val where kv: "kv = (key, val)" by (cases kv)
  from Cons.prems show ?case
    by (auto simp add: kv is_d_def is_m_def split: list.splits if_splits option.splits
        intro!: Cons.IH dm_keys_update)
qed

lemma read_csv_loop_rows:
  "read_csv_loop path rs cols st = Inr st' \<Longrightarrow> list_all dm_keys (rows st)
     \<Longrightarrow> list_all dm_keys (rows st')"
proof (induction rs arbitrary: cols st)
  case Nil
  then show ?case by simp
next
  case (Cons a rs)
  obtain ln r where a: "a = (ln, r)" by (cases a)
  show ?case
  proof (cases "cols = []")
    case True
    with Cons.prems a show ?thesis by (auto intro: Cons.IH)
  next
    case False
    with Cons.prems a obtain new_row out where
      f: "read_csv_fields path ln (zip cols r) [] [] = Inr (new_row, out)" and
      l: "read_csv_loop path rs cols (st\<lparr>rows := rows st @ [new_row], printed := printed st @ out\<rparr>) = Inr st'"
      by (auto split: sum.splits)
    from read_csv_fields_keys[OF f] have "dm_keys new_row" by (simp add: dm_keys_def)
    with Cons.prems(2) show ?thesis by (intro Cons.IH[OF l]) simp
  qed
qed

lemma read_csv_loop_cc:
  "read_csv_loop path rs cols st = Inr st' \<Longrightarrow> cc_inv st \<Longrightarrow> cc_inv st'"
proof (induction rs arbitrary: cols st)
  case Nil
  then show ?case by simp
next
  case (Cons a rs)
  obtain ln r where a: "a = (ln, r)" by (cases a)
  show ?case
  proof (cases "cols = []")
    case True
    with Cons.prems(1) a have
      l: "read_csv_loop path rs r (st\<lparr>columns := columns st \<union> set r,
            common_columns := common_columns st @ [set r]\<rparr>) = Inr st'" by simp
    from Cons.prems(2) show ?thesis by (intro Cons.IH[OF l]) (auto simp add: cc_inv_def)
  next
    case False
    with Cons.prems(1) a obtain new_row out where
      l: "read_csv_loop path rs cols
            (st\<lparr>rows := rows st @ [new_row], printed := printed st @ out\<rparr>) = Inr st'"
      by (auto split: sum.splits)
    from Cons.prems(2) show ?thesis by (intro Cons.IH[OF l]) (auto simp add: cc_inv_def)
  qed
qed

lemma read_json_items_common:
  "read_json_items path field kvs new_row common out = Inr (r, common', out')
     \<Longrightarrow> common' = common \<union> set (map fst kvs)"
proof (induction kvs arbitrary: new_row common out)
  case Nil
  then show ?case by simp
next
  case (Cons kv kvs)
  obtain key val where kv: "kv = (key, val)" by (cases kv)
  from Cons.prems have "common' = insert key common \<union> set (map fst kvs)"
    by (auto simp add: kv split: list.splits if_splits option.splits pyval.splits
        dest: Cons.IH simp del: set_map)
  then show ?case by (simp add: kv)
qed

lemma read_json_fields_cc:
  "read_json_fields path flds common st = Inr (common', st') \<Longrightarrow> cc_inv st
     \<Longrightarrow> common \<subseteq> columns st
     \<Longrightarrow> cc_inv st' \<and> common' \<subseteq> columns st' \<and> common_columns st' = common_columns st"
proof (induction flds arbitrary: common st)
  case Nil
  then show ?case by simp
next
  case (Cons field flds)
  from Cons.prems(1) obtain new_row c1 out where
    i: "read_json_items path field field [] common [] = Inr (new_row, c1, out)" and
    l: "read_json_fields path flds c1
          (st\<lparr>rows := rows st @ [new_row], columns := columns st \<union> set (map fst field),
              printed := printed st @ out\<rparr>) = Inr (common', st')"
    by (auto split: sum.splits)
  from read_json_items_common[OF i] have c1: "c1 = common \<union> set (map fst field)" .
  from Cons.IH[OF l] Cons.prems(2,3) c1 show ?case
    by (auto simp add: cc_inv_def)
qed

lemma read_xml_objects_cc:
  "read_xml_objects path objs new_row common st = Inr (r, common', st') \<Longrightarrow> cc_inv st
     \<Longrightarrow> common \<subseteq> columns st
     \<Longrightarrow> cc_inv st' \<and> common' \<subseteq> columns st' \<and> common_columns st' = common_columns st"
proof (induction objs arbitrary: new_row common st)
  case Nil
  then show ?case by simp
next
  case (Cons obj objs)
  obtain name vals where obj: "obj = (name, vals)" by (cases obj)
  from Cons.prems(1) obj obtain column r1 out where
    n: "name = Some column" and
    l: "read_xml_objects path objs r1 (insert column common)
          (st\<lparr>columns := insert column (columns st), printed := printed st @ out\<rparr>) = Inr (r, common', st')"
    by (auto split: sum.splits option.splits)
  from Cons.IH[OF l] Cons.prems(2,3) show ?case
    by (auto simp add: cc_inv_def)
qed

lemma ingest_cc: "ingest s st = Inr st' \<Longrightarrow> cc_inv st \<Longrightarrow> cc_inv st'"
proof (cases s)
  case (Csv path reader)
  assume "ingest s st = Inr st'" "cc_inv st"
  with Csv show ?thesis by (auto simp add: read_csv_def dest: read_csv_loop_cc)
next
  case (Json path flds)
  assume a: "ingest s st = Inr st'" "cc_inv st"
  with Json obtain common st1 where
    f: "read_json_fields path flds {} st = Inr (common, st1)" and
    s: "st' = st1\<lparr>common_columns := common_columns st1 @ [common]\<rparr>"
    by (auto simp add: read_json_def split: sum.splits)
  from read_json_fields_cc[OF f a(2)] s show ?thesis by (auto simp add: cc_inv_def)
next
  case (Xml path objs)
  assume a: "ingest s st = Inr st'" "cc_inv st"
  with Xml obtain r common st1 where
    f: "read_xml_objects path objs [] {} st = Inr (r, common, st1)" and
    s: "st' = st1\<lparr>rows := rows st1 @ [r], common_columns := common_columns st1 @ [common]\<rparr>"
    by (auto simp add: read_xml_def split: sum.splits)
  from read_xml_objects_cc[OF f a(2)] s show ?thesis by (auto simp add: cc_inv_def)
qed

lemma ingest_all_cc: "ingest_all ss st = Inr st' \<Longrightarrow> cc_inv st \<Longrightarrow> cc_inv st'"
  by (induction ss arbitrary: st) (auto split: sum.splits dest: ingest_cc)

lemma foldl_Int: "foldl (\<inter>) s ss = s \<inter> \<Inter>(set ss)"
  by (induction ss arbitrary: s) auto

lemma common_set_Inter:
  "common_columns st \<noteq> [] \<Longrightarrow> common_set st = \<Inter>(set (common_columns st))"
  by (cases "common_columns st") (auto simp add: common_set_def foldl_Int)

lemma common_set_subset: "cc_inv st \<Longrightarrow> common_set st \<subseteq> columns st"
  by (cases "common_columns st") (auto simp add: common_set_def foldl_Int cc_inv_def)

lemma read_xml_values_keys:
  "read_xml_values path column vals new_row out = Inr (r, out') \<Longrightarrow> dm_keys new_row \<Longrightarrow> dm_keys r"
proof (induction vals arbitrary: new_row out)
  case Nil
  then show ?case by simp
next
  case (Cons v vals)
  from Cons.prems show ?case
    by (auto simp add: is_d_def is_m_def split: list.splits if_splits option.splits
        intro!: Cons.IH dm_keys_update)
qed

lemma read_xml_objects_keys:
  "read_xml_objects path objs new_row common st = Inr (r, common', st') \<Longrightarrow> dm_keys new_row
     \<Longrightarrow> dm_keys r \<and> rows st' = rows st"
proof (induction objs arbitrary: new_row common st)
  case Nil
  then show ?case by simp
next
  case (Cons obj objs)
  obtain name vals where obj: "obj = (name, vals)" by (cases obj)
  from Cons.prems(1) obj obtain column r1 out where
    v: "read_xml_values path column vals new_row [] = Inr (r1, out)" and
    l: "read_xml_objects path objs r1 (insert column common)
          (st\<lparr>columns := insert column (columns st), printed := printed st @ out\<rparr>) = Inr (r, common', st')"
    by (auto split: sum.splits option.splits)
  from read_xml_values_keys[OF v Cons.prems(2)] have "dm_keys r1" .
  from Cons.IH[OF l this] show ?case by simp
qed

lemma ingest_rows_dm:
  assumes "ingest s st = Inr st'" "\<not> is_json s" "list_all dm_keys (rows st)"
  shows "list_all dm_keys (rows st')"
proof (cases s)
  case (Csv path reader)
  with assms show ?thesis by (auto simp add: read_csv_def dest: read_csv_loop_rows)
next
  case (Json path flds)
  with assms show ?thesis by simp
next
  case (Xml path objs)
  with assms obtain r common st1 where
    f: "read_xml_objects path objs [] {} st = Inr (r, common, st1)" and
    s: "st' = st1\<lparr>rows := rows st1 @ [r], common_columns := common_columns st1 @ [common]\<rparr>"
    by (auto simp add: read_xml_def split: sum.splits)
  have "dm_keys []" by (simp add: dm_keys_def)
  from read_xml_objects_keys[OF f this] s assms(3) show ?thesis by simp
qed

lemma ingest_all_rows_dm:
  "ingest_all ss st = Inr st' \<Longrightarrow> list_all (\<lambda>s. \<not> is_json s) ss \<Longrightarrow> list_all dm_keys (rows st)
     \<Longrightarrow> list_all dm_keys (rows st')"
proof (induction ss arbitrary: st)
  case Nil
  then show ?case by simp
next
  case (Cons s ss)
  from Cons.prems(1) obtain st1 where i: "ingest s st = Inr st1" and a: "ingest_all ss st1 = Inr st'"
    by (auto split: sum.splits)
  from Cons.prems(2,3) have "list_all dm_keys (rows st1)" by (intro ingest_rows_dm[OF i]) simp_all
  with Cons.prems(2) show ?case by (intro Cons.IH[OF a]) simp_all
qed

lemma resolve_roles:
  assumes "resolve common it st = Inr (d, m)"
  shows "list_all is_d d \<and> list_all is_m m"
proof -
  have "d_m_sorted it = Inr (d, m) \<Longrightarrow> ?thesis"
    by (auto simp add: d_m_sorted_char list_all_iff split: if_splits)
  with assms show ?thesis
    by (auto simp add: resolve_def d_m_sorted_common_columns_def d_m_sorted_columns_def split: if_splits)
qed

lemma read_xml_values_fold:
  "read_xml_values path column vals new_row out = Inr (r, out') \<Longrightarrow>
   r = foldl (\<lambda>a v. AList.update column v a) new_row (List.map_filter (xml_stored column) vals)"
proof (induction vals arbitrary: new_row out)
  case Nil
  then show ?case by (simp add: map_filter_simps)
next
  case (Cons v vals)
  from Cons.prems obtain c0 cs where c: "column = c0 # cs" by (cases column) auto
  consider (D) "c0 = CHR ''D''" | (M) "c0 = CHR ''M''" | (O) "c0 \<noteq> CHR ''D''" "c0 \<noteq> CHR ''M''"
    by blast
  then show ?case
  proof cases
    case D
    let ?w = "case v of None \<Rightarrow> PNone | Some s \<Rightarrow> PStr s"
    from Cons.prems c D have
      l: "read_xml_values path column vals (AList.update column ?w new_row) out = Inr (r, out')"
      by simp
    have "xml_stored column v = Some ?w" by (simp add: xml_stored_def is_d_def c D)
    with Cons.IH[OF l] show ?thesis by (simp add: map_filter_simps)
  next
    case M
    from Cons.prems c M obtain s where v: "v = Some s" by (cases v) auto
    show ?thesis
    proof (cases "py_int s")
      case None
      with Cons.prems c M v have
        l: "read_xml_values path column vals new_row (out @ [XmlDiag s path column]) = Inr (r, out')"
        by simp
      have "xml_stored column v = None" by (simp add: xml_stored_def is_d_def is_m_def c M v None)
      with Cons.IH[OF l] show ?thesis by (simp add: map_filter_simps)
    next
      case (Some i)
      with Cons.prems c M v have
        l: "read_xml_values path column vals (AList.update column (PInt i) new_row) out = Inr (r, out')"
        by simp
      have "xml_stored column v = Some (PInt i)"
        by (simp add: xml_stored_def is_d_def is_m_def c M v Some)
      with Cons.IH[OF l] show ?thesis by (simp add: map_filter_simps)
    qed
  next
    case O
    with Cons.prems c have
      l: "read_xml_values path column vals new_row out = Inr (r, out')" by simp
    have "xml_stored column v = None" by (simp add: xml_stored_def is_d_def is_m_def c O)
    with Cons.IH[OF l] show ?thesis by (simp add: map_filter_simps)
  qed
qed

lemma map_of_foldl_update:
  "map_of (foldl (\<lambda>a v. AList.update k v a) al vs) c =
     (if c = k \<and> vs \<noteq> [] then Some (last vs) else map_of al c)"
  by (induction vs arbitrary: al) (auto simp add: update_conv')

lemma read_xml_values_map:
  "read_xml_values path column vals new_row out = Inr (r, out') \<Longrightarrow>
   map_of r c = (if c = column \<and> List.map_filter (xml_stored column) vals \<noteq> []
                 then Some (last (List.map_filter (xml_stored column) vals)) else map_of new_row c)"
  by (drule read_xml_values_fold) (simp only: map_of_foldl_update)

lemma read_xml_objects_map:
  "read_xml_objects path objs new_row common st = Inr (r, common', st') \<Longrightarrow>
   map_of r c = (if xml_values c objs = [] then map_of new_row c else Some (last (xml_values c objs))) \<and>
   common' = common \<union> set (List.map_filter fst objs) \<and>
   columns st' = columns st \<union> set (List.map_filter fst objs) \<and>
   rows st' = rows st \<and> common_columns st' = common_columns st"
proof (induction objs arbitrary: new_row common st)
  case Nil
  then show ?case by (simp add: xml_values_def map_filter_simps)
next
  case (Cons obj objs)
  obtain name vals where obj: "obj = (name, vals)" by (cases obj)
  from Cons.prems(1) obj obtain column r1 out where
    n: "name = Some column" and
    v: "read_xml_values path column vals new_row [] = Inr (r1, out)" and
    l: "read_xml_objects path objs r1 (insert column common)
          (st\<lparr>columns := insert column (columns st), printed := printed st @ out\<rparr>) = Inr (r, common', st')"
    by (auto split: sum.splits option.splits)
  have x: "xml_values c ((Some column, vals) # objs) = (if column = c then List.map_filter (xml_stored c) vals else []) @ xml_values c objs"
    by (simp add: xml_values_def)
  from Cons.IH[OF l] read_xml_values_map[OF v, of c] show ?case
    by (auto simp add: x obj n map_filter_simps)
qed

subsection \<open>Sorting the rows of the Basic report\<close>

lemma pyval_le [simp]: "PStr s \<le> PStr t \<longleftrightarrow> s \<le> t" "PInt a \<le> PInt b \<longleftrightarrow> a \<le> b"
  by simp_all

lemma insort_key_PStr: "insort_key (\<lambda>x. PStr (g x)) x ys = insort_key g x ys"
  by (induction ys) simp_all

lemma sort_key_PStr: "sort_key (\<lambda>x. PStr (g x)) xs = sort_key g xs"
  by (induction xs) (simp_all add: insort_key_PStr)

lemma sorted_rows_text:
  assumes "\<forall>r\<in>set rs. \<exists>s. map_of r ''D1'' = Some (PStr s)"
  shows "sorted_rows rs = Inr (sort_key d1_text rs)"
proof -
  have "those (map (\<lambda>x. map_of x ''D1'') rs) = Some (map (\<lambda>r. PStr (d1_text r)) rs)"
    using assms by (intro those_map_Some) (auto simp add: d1_text_def)
  moreover have "list_all is_str (map (\<lambda>r. PStr (d1_text r)) rs)"
    by (simp add: list_all_iff)
  ultimately show ?thesis
    by (simp add: sorted_rows_def sort_key_zip sort_key_PStr)
qed

subsection \<open>The aggregation loop\<close>

lemma add_vals_map:
  "add_vals (map f m) (map g m) =
     (if list_all (\<lambda>c. is_int (g c)) m then Inr (map (\<lambda>c. f c + int_val (g c)) m)
      else Inl TypeError)"
proof (induction m)
  case Nil
  show ?case by simp
next
  case (Cons c m)
  show ?case by (cases "g c") (simp_all add: Cons int_val_def)
qed

lemma get_data_step:
  assumes "acc_inv data m F"
  shows "get_data_loop (r # rs) d m data =
           (if list_all (\<lambda>c. is_int (py_get r c (PInt 0))) m
            then get_data_loop rs d m
                   (AList.update (key_of d r)
                      (map (\<lambda>c. F (key_of d r) c + int_val (py_get r c (PInt 0))) m) data)
            else Inl TypeError)"
    and "acc_inv (AList.update (key_of d r)
                    (map (\<lambda>c. F (key_of d r) c + int_val (py_get r c (PInt 0))) m) data) m
           (F(key_of d r := \<lambda>c. F (key_of d r) c + int_val (py_get r c (PInt 0))))"
proof -
  let ?key = "key_of d r"
  let ?g = "\<lambda>c. py_get r c (PInt 0)"
  let ?vd = "case map_of data ?key of None \<Rightarrow> replicate (length m) 0 | Some v \<Rightarrow> v"
  have vd: "?vd = map (F ?key) m"
  proof (cases "map_of data ?key")
    case None
    with assms(1) have "F ?key = (\<lambda>c. 0)" by (auto simp add: acc_inv_def)
    with None show ?thesis by (simp add: map_replicate_const)
  next
    case (Some v)
    with assms(1) show ?thesis by (simp add: acc_inv_def)
  qed
  show "get_data_loop (r # rs) d m data =
           (if list_all (\<lambda>c. is_int (py_get r c (PInt 0))) m
            then get_data_loop rs d m
                   (AList.update (key_of d r)
                      (map (\<lambda>c. F (key_of d r) c + int_val (py_get r c (PInt 0))) m) data)
            else Inl TypeError)"
    using add_vals_map[of "F ?key" m ?g] vd
    by (simp add: key_of_def Let_def)
  show "acc_inv (AList.update (key_of d r)
                    (map (\<lambda>c. F (key_of d r) c + int_val (py_get r c (PInt 0))) m) data) m
           (F(key_of d r := \<lambda>c. F (key_of d r) c + int_val (py_get r c (PInt 0))))"
    using assms(1) by (auto simp add: acc_inv_def update_conv')
qed

lemma get_data_loop_ok:
  assumes "summable rs m" and "acc_inv data m F" and "distinct (map fst data)"
  shows "\<exists>data'. get_data_loop rs d m data = Inr data' \<and> distinct (map fst data') \<and>
           set (map fst data') = set (map fst data) \<union> key_of d ` set rs \<and>
           (\<forall>k\<in>set (map fst data'). map_of data' k = Some (map (\<lambda>c. F k c + group_sum rs d k c) m))"
  using assms
proof (induction rs arbitrary: data F)
  case Nil
  have "map_of data k = Some (map (F k) m)" if "k \<in> set (map fst data)" for k
  proof -
    from that obtain v where "map_of data k = Some v"
      by (metis map_of_eq_None_iff not_None_eq set_map)
    with Nil(2) show ?thesis by (auto simp add: acc_inv_def)
  qed
  with Nil(3) show ?case by (simp add: group_sum_def)
next
  case (Cons r rs)
  let ?key = "key_of d r"
  let ?g = "\<lambda>c. py_get r c (PInt 0)"
  from Cons.prems(1) have int: "list_all (\<lambda>c. is_int (?g c)) m" and rest: "summable rs m"
    by (simp_all add: summable_def)
  let ?nv = "map (\<lambda>c. F ?key c + int_val (?g c)) m"
  let ?F = "F(?key := \<lambda>c. F ?key c + int_val (?g c))"
  let ?data = "AList.update ?key ?nv data"
  have step: "get_data_loop (r # rs) d m data = get_data_loop rs d m ?data"
    using get_data_step(1)[OF Cons.prems(2)] int by simp
  have c: "distinct (map fst ?data)" using Cons.prems(3) by (simp add: distinct_update)
  from Cons.IH[OF rest get_data_step(2)[OF Cons.prems(2)] c] obtain data' where
    r: "get_data_loop rs d m ?data = Inr data'" "distinct (map fst data')"
       "set (map fst data') = set (map fst ?data) \<union> key_of d ` set rs"
       "\<forall>k\<in>set (map fst data'). map_of data' k = Some (map (\<lambda>c. ?F k c + group_sum rs d k c) m)"
    by blast
  have e: "?F k c + group_sum rs d k c = F k c + group_sum (r # rs) d k c" for k c
    by (simp add: group_sum_def)
  have s: "set (map fst ?data) = insert ?key (set (map fst data))"
    using dom_update[of ?key ?nv data] by (simp del: dom_update)
  have v: "\<forall>k\<in>set (map fst data').
             map_of data' k = Some (map (\<lambda>c. F k c + group_sum (r # rs) d k c) m)"
    using r(4) by (simp only: e)
  have k: "set (map fst data') = set (map fst data) \<union> key_of d ` set (r # rs)"
    using r(3) by (simp only: s) auto
  show ?case unfolding step using r(1,2) k v by (intro exI[of _ data'] conjI)
qed

lemma get_data_loop_bad:
  "\<not> summable rs m \<Longrightarrow> acc_inv data m F \<Longrightarrow> get_data_loop rs d m data = Inl TypeError"
proof (induction rs arbitrary: data F)
  case Nil
  then show ?case by (simp add: summable_def)
next
  case (Cons r rs)
  show ?case
  proof (cases "list_all (\<lambda>c. is_int (py_get r c (PInt 0))) m")
    case True
    with Cons.prems(1) have "\<not> summable rs m" by (simp add: summable_def)
    from Cons.IH[OF this get_data_step(2)[OF Cons.prems(2)]] True
    show ?thesis by (simp only: get_data_step(1)[OF Cons.prems(2)] if_True)
  next
    case False
    then show ?thesis by (simp only: get_data_step(1)[OF Cons.prems(2)] if_False)
  qed
qed

lemma get_data_advanced_char:
  "if summable (rows st) m
   then \<exists>data. get_data_advanced st d m = Inr data \<and> distinct (map fst data) \<and>
          set (map fst data) = key_of d ` set (rows st) \<and>
          (\<forall>k\<in>set (map fst data). map_of data k = Some (map (group_sum (rows st) d k) m))
   else get_data_advanced st d m = Inl TypeError"
proof -
  have i: "acc_inv [] m (\<lambda>k c. 0)" by (simp add: acc_inv_def)
  show ?thesis
  proof (cases "summable (rows st) m")
    case True
    from get_data_loop_ok[OF True i, of d] True show ?thesis
      by (simp add: get_data_advanced_def)
  next
    case False
    from get_data_loop_bad[OF False i] False show ?thesis
      by (simp add: get_data_advanced_def)
  qed
qed





subsection \<open>A call adds to the state, whatever the state\<close>

lemma etl_append_init [simp]: "etl_append a init = a" "etl_append init a = a"
  by (simp_all add: etl_append_def init_def)

lemma etl_append_sel [simp]:
  "rows (etl_append a b) = rows a @ rows b"
  "columns (etl_append a b) = columns a \<union> columns b"
  "common_columns (etl_append a b) = common_columns a @ common_columns b"
  "printed (etl_append a b) = printed a @ printed b"
  by (simp_all add: etl_append_def)

lemma read_csv_loop_frame:
  "read_csv_loop path rs cols (etl_append a b) =
     (case read_csv_loop path rs cols b of Inl e \<Rightarrow> Inl e | Inr b' \<Rightarrow> Inr (etl_append a b'))"
proof (induction rs arbitrary: cols b)
  case Nil
  show ?case by simp
next
  case (Cons x rs)
  obtain ln r where x: "x = (ln, r)" by (cases x)
  have h: "(etl_append a b)\<lparr>columns := columns (etl_append a b) \<union> set r,
              common_columns := common_columns (etl_append a b) @ [set r]\<rparr>
           = etl_append a (b\<lparr>columns := columns b \<union> set r,
              common_columns := common_columns b @ [set r]\<rparr>)"
    by (simp add: etl_append_def Un_assoc)
  have g: "(etl_append a b)\<lparr>rows := rows (etl_append a b) @ [nr],
              printed := printed (etl_append a b) @ out\<rparr>
           = etl_append a (b\<lparr>rows := rows b @ [nr], printed := printed b @ out\<rparr>)" for nr out
    by (simp add: etl_append_def)
  show ?case
    by (simp only: x read_csv_loop.simps h g Cons.IH split: sum.splits prod.splits if_splits)
       (auto split: sum.splits)
qed

lemma read_json_fields_frame:
  "read_json_fields path flds common (etl_append a b) =
     (case read_json_fields path flds common b of
        Inl e \<Rightarrow> Inl e | Inr (c, b') \<Rightarrow> Inr (c, etl_append a b'))"
proof (induction flds arbitrary: common b)
  case Nil
  show ?case by simp
next
  case (Cons field flds)
  have g: "(etl_append a b)\<lparr>rows := rows (etl_append a b) @ [nr],
              columns := columns (etl_append a b) \<union> X,
              printed := printed (etl_append a b) @ out\<rparr>
           = etl_append a (b\<lparr>rows := rows b @ [nr], columns := columns b \<union> X,
                               printed := printed b @ out\<rparr>)" for nr out X
    by (simp add: etl_append_def Un_assoc)
  show ?case
    by (simp only: read_json_fields.simps g Cons.IH) (auto split: sum.splits)
qed

lemma read_xml_objects_frame:
  "read_xml_objects path objs new_row common (etl_append a b) =
     (case read_xml_objects path objs new_row common b of
        Inl e \<Rightarrow> Inl e | Inr (r, c, b') \<Rightarrow> Inr (r, c, etl_append a b'))"
proof (induction objs arbitrary: new_row common b)
  case Nil
  show ?case by simp
next
  case (Cons obj objs)
  obtain name vals where obj: "obj = (name, vals)" by (cases obj)
  have g: "(etl_append a b)\<lparr>columns := insert c (columns (etl_append a b)),
              printed := printed (etl_append a b) @ out\<rparr>
           = etl_append a (b\<lparr>columns := insert c (columns b),
                               printed := printed b @ out\<rparr>)" for c out
    by (simp add: etl_append_def)
  show ?case
    by (simp only: obj read_xml_objects.simps g Cons.IH) (auto split: sum.splits option.splits)
qed

lemma ingest_frame:
  "ingest s (etl_append a b) =
     (case ingest s b of Inl e \<Rightarrow> Inl e | Inr b' \<Rightarrow> Inr (etl_append a b'))"
proof (cases s)
  case (Csv path reader)
  then show ?thesis by (simp add: read_csv_def read_csv_loop_frame)
next
  case (Json path flds)
  then show ?thesis
    by (simp add: read_json_def read_json_fields_frame split: sum.splits prod.splits;
        auto simp add: etl_append_def)
next
  case (Xml path objs)
  then show ?thesis
    by (simp add: read_xml_def read_xml_objects_frame split: sum.splits prod.splits;
        auto simp add: etl_append_def)
qed

lemma ingest_all_frame:
  "ingest_all ss (etl_append a b) =
     (case ingest_all ss b of Inl e \<Rightarrow> Inl e | Inr b' \<Rightarrow> Inr (etl_append a b'))"
proof (induction ss arbitrary: b)
  case Nil
  show ?case by simp
next
  case (Cons s ss)
  show ?case by (simp add: ingest_frame Cons.IH split: sum.splits)
qed

lemma ingest_all_Cons_init:
  "ingest_all (s # ss) init =
     (case ingest s init of Inl e \<Rightarrow> Inl e
      | Inr b \<Rightarrow> (case ingest_all ss init of Inl e \<Rightarrow> Inl e | Inr b' \<Rightarrow> Inr (etl_append b b')))"
proof (cases "ingest s init")
  case (Inl e)
  then show ?thesis by simp
next
  case (Inr b)
  have "ingest_all ss b = ingest_all ss (etl_append b init)" by simp
  also have "\<dots> = (case ingest_all ss init of Inl e \<Rightarrow> Inl e | Inr b' \<Rightarrow> Inr (etl_append b b'))"
    by (rule ingest_all_frame)
  finally show ?thesis using Inr by simp
qed

lemma ingest_all_init_char:
  "(\<exists>st. ingest_all ss init = Inr st) \<longleftrightarrow> list_all accepted ss"
  "ingest_all ss init = Inr st \<Longrightarrow>
     rows st = concat (map (\<lambda>s. rows (added s)) ss) \<and>
     columns st = \<Union>(set (map (\<lambda>s. columns (added s)) ss)) \<and>
     common_columns st = concat (map (\<lambda>s. common_columns (added s)) ss)"
proof -
  show "(\<exists>st. ingest_all ss init = Inr st) \<longleftrightarrow> list_all accepted ss"
  proof (induction ss)
    case Nil
    show ?case by simp
  next
    case (Cons s ss)
    then show ?case
      by (simp only: ingest_all_Cons_init) (auto simp add: accepted_def split: sum.splits)
  qed
  show "ingest_all ss init = Inr st \<Longrightarrow>
     rows st = concat (map (\<lambda>s. rows (added s)) ss) \<and>
     columns st = \<Union>(set (map (\<lambda>s. columns (added s)) ss)) \<and>
     common_columns st = concat (map (\<lambda>s. common_columns (added s)) ss)"
  proof (induction ss arbitrary: st)
    case Nil
    then show ?case by (auto simp add: init_def)
  next
    case (Cons s ss)
    from Cons.prems obtain b b' where
      b: "ingest s init = Inr b" "ingest_all ss init = Inr b'" "st = etl_append b b'"
      by (simp only: ingest_all_Cons_init) (auto split: sum.splits)
    from Cons.IH[OF b(2)] b(1,3) show ?case by (simp add: added_def)
  qed
qed


subsection \<open>Permuted rows and permuted calls\<close>

lemma sum_list_map_mset: "mset xs = mset ys \<Longrightarrow> sum_list (map f xs) = sum_list (map f ys)"
  for f :: "'a \<Rightarrow> int"
proof -
  assume a: "mset xs = mset ys"
  have "sum_list (map f zs) = sum_mset (image_mset f (mset zs))" for zs
    by (induction zs) simp_all
  with a show ?thesis by simp
qed

lemma group_sum_mset: "mset rs = mset rs' \<Longrightarrow> group_sum rs d k c = group_sum rs' d k c"
proof -
  assume "mset rs = mset rs'"
  then have "mset (filter (\<lambda>r. key_of d r = k) rs) = mset (filter (\<lambda>r. key_of d r = k) rs')"
    by simp
  then show ?thesis unfolding group_sum_def by (rule sum_list_map_mset)
qed

lemma summable_set: "set rs = set rs' \<Longrightarrow> summable rs m = summable rs' m"
  by (simp add: summable_def list_all_iff)

lemma mset_concat_map: "mset xs = mset ys \<Longrightarrow> mset (concat (map f xs)) = mset (concat (map f ys))"
proof -
  assume a: "mset xs = mset ys"
  have "mset (concat (map f zs)) = (\<Sum>z\<in>#mset zs. mset (f z))" for zs
    by (induction zs) simp_all
  with a show ?thesis by simp
qed


lemma get_data_advanced_ok:
  assumes "summable (rows st) m"
  obtains data where "get_data_advanced st d m = Inr data"
    "set (map fst data) = key_of d ` set (rows st)"
    "\<And>k. k \<in> key_of d ` set (rows st) \<Longrightarrow>
        map_of data k = Some (map (group_sum (rows st) d k) m)"
proof -
  from get_data_advanced_char[of st m d] assms have
    "\<exists>data. get_data_advanced st d m = Inr data \<and> distinct (map fst data) \<and>
        set (map fst data) = key_of d ` set (rows st) \<and>
        (\<forall>k\<in>set (map fst data). map_of data k = Some (map (group_sum (rows st) d k) m))"
    by (simp only: if_True)
  then obtain data where
    g: "get_data_advanced st d m = Inr data"
       "set (map fst data) = key_of d ` set (rows st)"
       "\<forall>k\<in>set (map fst data). map_of data k = Some (map (group_sum (rows st) d k) m)"
    by blast
  have "map_of data k = Some (map (group_sum (rows st) d k) m)"
    if "k \<in> key_of d ` set (rows st)" for k
  proof -
    from that have "k \<in> set (map fst data)" by (simp only: g(2))
    with g(3) show ?thesis by (rule bspec)
  qed
  with g(1,2) show ?thesis by (rule that)
qed

lemma get_data_advanced_bad:
  assumes "\<not> summable (rows st) m"
  shows "get_data_advanced st d m = Inl TypeError"
  using get_data_advanced_char[of st m d] assms by (simp only: if_False)

lemma get_data_advanced_mset:
  assumes "mset (rows st') = mset (rows st)"
  shows "same_groups (get_data_advanced st' d m) (get_data_advanced st d m)"
proof -
  from assms have se: "set (rows st') = set (rows st)" by (rule mset_eq_setD)
  show ?thesis
  proof (cases "summable (rows st) m")
    case False
    with summable_set[OF se, of m] have "\<not> summable (rows st') m" by simp
    with False show ?thesis
      by (simp add: get_data_advanced_bad same_groups_def)
  next
    case True
    with summable_set[OF se, of m] have t': "summable (rows st') m" by simp
    from get_data_advanced_ok[OF True, of d] obtain b where
      b: "get_data_advanced st d m = Inr b" "set (map fst b) = key_of d ` set (rows st)"
         "\<And>k. k \<in> key_of d ` set (rows st) \<Longrightarrow>
            map_of b k = Some (map (group_sum (rows st) d k) m)"
      by blast
    from get_data_advanced_ok[OF t', of d] obtain a where
      a: "get_data_advanced st' d m = Inr a" "set (map fst a) = key_of d ` set (rows st')"
         "\<And>k. k \<in> key_of d ` set (rows st') \<Longrightarrow>
            map_of a k = Some (map (group_sum (rows st') d k) m)"
      by blast
    have "map_of a k = map_of b k" for k
    proof (cases "k \<in> key_of d ` set (rows st)")
      case True
      then have "map_of a k = Some (map (group_sum (rows st') d k) m)"
        using a(3)[of k] by (simp only: se)
      moreover have "map_of b k = Some (map (group_sum (rows st) d k) m)"
        using b(3)[OF True] .
      moreover have "group_sum (rows st') d k c = group_sum (rows st) d k c" for c
        using assms by (rule group_sum_mset)
      ultimately show ?thesis by simp
    next
      case False
      then have "k \<notin> set (map fst a)" "k \<notin> set (map fst b)"
        by (simp_all only: a(2) b(2) se not_False_eq_True)
      then have "map_of a k = None" "map_of b k = None"
        by (simp_all add: map_of_eq_None_iff)
      then show ?thesis by simp
    qed
    then have "map_of a = map_of b" by (rule ext)
    with a(1) b(1) show ?thesis by (simp add: same_groups_def)
  qed
qed


lemma permuted_run:
  assumes "mset srcs' = mset srcs" and "ingest_all srcs init = Inr st"
  shows "\<exists>st'. ingest_all srcs' init = Inr st' \<and> mset (rows st') = mset (rows st) \<and>
           columns st' = columns st \<and> mset (common_columns st') = mset (common_columns st)"
proof -
  from assms(1) have se: "set srcs' = set srcs" by (rule mset_eq_setD)
  from assms(2) have "\<exists>st. ingest_all srcs init = Inr st" by (rule exI)
  then have "list_all accepted srcs" by (simp only: ingest_all_init_char(1))
  with se have "list_all accepted srcs'" by (simp add: list_all_iff)
  then have "\<exists>st'. ingest_all srcs' init = Inr st'" by (simp only: ingest_all_init_char(1))
  then obtain st' where r: "ingest_all srcs' init = Inr st'" ..
  note c = ingest_all_init_char(2)[OF assms(2)] and c' = ingest_all_init_char(2)[OF r]
  have 1: "mset (rows st') = mset (rows st)"
    using mset_concat_map[OF assms(1), of "\<lambda>s. rows (added s)"]
    by (simp only: c c')
  have 2: "columns st' = columns st" by (simp only: c c' se set_map)
  have 3: "mset (common_columns st') = mset (common_columns st)"
    using mset_concat_map[OF assms(1), of "\<lambda>s. common_columns (added s)"]
    by (simp only: c c')
  from r 1 2 3 show ?thesis by (intro exI[of _ st'] conjI)
qed

lemma common_set_mset:
  assumes "mset (common_columns st') = mset (common_columns st)"
  shows "common_set st' = common_set st \<and> (common_columns st' = [] \<longleftrightarrow> common_columns st = [])"
proof -
  from assms have se: "set (common_columns st') = set (common_columns st)" by (rule mset_eq_setD)
  from assms have e: "common_columns st' = [] \<longleftrightarrow> common_columns st = []"
    by (metis mset_zero_iff)
  show ?thesis
  proof (cases "common_columns st = []")
    case True
    with e show ?thesis by (simp add: common_set_Nil)
  next
    case False
    with e se show ?thesis by (simp add: common_set_Inter)
  qed
qed


section \<open>Coercion of measure values (C1)\<close>

text \<open>
  C1. Every reading method is to store, for a column starting with \<open>M\<close> whose raw text
  parses as an integer, the coerced integer and not the raw text. \<open>read_json\<close> does not:
  on the field \<open>{"M1": "3"}\<close>, whose text parses to 3, it stores the string, since the
  unconditional \<open>new_row[key] = val\<close> overwrites the coerced value; \<open>read_csv\<close> and
  \<open>read_xml\<close> store the integer 3 for the same text.
\<close>

theorem read_json_stores_raw_text:
  "py_int ''3'' = Some 3 \<and>
   read_json ''data.json'' [[(''M1'', PStr ''3'')]] init =
     Inr \<lparr>rows = [[(''M1'', PStr ''3'')]], columns = {''M1''},
          common_columns = [{''M1''}], printed = []\<rparr> \<and>
   read_csv ''data.csv'' [(1, [''M1'']), (2, [''3''])] init =
     Inr \<lparr>rows = [[(''M1'', PInt 3)]], columns = {''M1''},
          common_columns = [{''M1''}], printed = []\<rparr> \<and>
   read_xml ''data.xml'' [(Some ''M1'', [Some ''3''])] init =
     Inr \<lparr>rows = [[(''M1'', PInt 3)]], columns = {''M1''},
          common_columns = [{''M1''}], printed = []\<rparr>"
  by code_simp

section \<open>Names of another prefix (C2)\<close>

text \<open>
  C2 as the specification states it: after any sequence of reading calls the \<open>columns\<close>
  attribute holds only names starting with \<open>D\<close> or \<open>M\<close>. It does not: every reading
  method adds each name it meets to \<open>columns\<close>, whatever its prefix. After one
  \<open>read_csv\<close> of a file whose header is \<open>X1,D1\<close>, the attribute holds \<open>X1\<close>.
\<close>

theorem ignored_name_in_columns:
  "ingest_all [Csv ''data.csv'' [(1, [''X1'', ''D1''])]] init =
     Inr \<lparr>rows = [], columns = {''X1'', ''D1''}, common_columns = [{''X1'', ''D1''}],
          printed = []\<rparr> \<and>
   ''X1'' \<in> columns \<lparr>rows = [], columns = {''X1'', ''D1''},
                      common_columns = [{''X1'', ''D1''}], printed = []\<rparr> \<and>
   \<not> is_d ''X1'' \<and> \<not> is_m ''X1''"
  by (simp add: read_csv_def init_def is_d_def is_m_def)

text \<open>
  C2, amended. After any sequence of \<open>read_csv\<close> and \<open>read_xml\<close> calls no stored row has
  a key that starts with neither \<open>D\<close> nor \<open>M\<close>; and after any sequence of reading
  calls the lists resolved under either policy hold only names starting with \<open>D\<close>
  (dimensions) and with \<open>M\<close> (measures). The \<open>columns\<close> attribute itself holds every
  name met; the names of another prefix are left out when the lists are resolved.
\<close>

theorem only_roles_stored_and_resolved:
  assumes "ingest_all srcs init = Inr st"
  shows "(list_all (\<lambda>s. \<not> is_json s) srcs \<longrightarrow> list_all dm_keys (rows st)) \<and>
         (\<forall>common it d m. resolve common it st = Inr (d, m) \<longrightarrow> list_all is_d d \<and> list_all is_m m)"
proof -
  have "list_all dm_keys (rows init)" by (simp add: init_def)
  then have "list_all (\<lambda>s. \<not> is_json s) srcs \<Longrightarrow> list_all dm_keys (rows st)"
    using ingest_all_rows_dm[OF assms] by blast
  with resolve_roles show ?thesis by blast
qed

theorem only_roles_stored_and_resolved_witness:
  "ingest_all [Csv ''a.csv'' [(1, [''D1'', ''X1'', ''M1'']), (2, [''a'', ''q'', ''3''])],
               Xml ''b.xml'' [(Some ''D1'', [Some ''b'']), (Some ''Z'', [Some ''z''])]] init =
     Inr \<lparr>rows = [[(''D1'', PStr ''a''), (''M1'', PInt 3)], [(''D1'', PStr ''b'')]],
          columns = {''D1'', ''X1'', ''M1'', ''Z''},
          common_columns = [{''D1'', ''X1'', ''M1''}, {''D1'', ''Z''}], printed = []\<rparr> \<and>
   list_all (\<lambda>s. \<not> is_json s)
     [Csv ''a.csv'' [(1, [''D1'', ''X1'', ''M1'']), (2, [''a'', ''q'', ''3''])],
      Xml ''b.xml'' [(Some ''D1'', [Some ''b'']), (Some ''Z'', [Some ''z''])]] \<and>
   list_all dm_keys [[(''D1'', PStr ''a''), (''M1'', PInt 3)], [(''D1'', PStr ''b'')]] \<and>
   resolve False [''Z'', ''M1'', ''X1'', ''D1'']
     \<lparr>rows = [[(''D1'', PStr ''a''), (''M1'', PInt 3)], [(''D1'', PStr ''b'')]],
      columns = {''D1'', ''X1'', ''M1'', ''Z''},
      common_columns = [{''D1'', ''X1'', ''M1''}, {''D1'', ''Z''}], printed = []\<rparr>
     = Inr ([''D1''], [''M1'']) \<and>
   list_all is_d [''D1''] \<and> list_all is_m [''M1'']"
proof -
  let ?srcs = "[Csv ''a.csv'' [(1, [''D1'', ''X1'', ''M1'']), (2, [''a'', ''q'', ''3''])],
                Xml ''b.xml'' [(Some ''D1'', [Some ''b'']), (Some ''Z'', [Some ''z''])]]"
  let ?st = "\<lparr>rows = [[(''D1'', PStr ''a''), (''M1'', PInt 3)], [(''D1'', PStr ''b'')]],
              columns = {''D1'', ''X1'', ''M1'', ''Z''},
              common_columns = [{''D1'', ''X1'', ''M1''}, {''D1'', ''Z''}], printed = []\<rparr>"
  have run: "ingest_all ?srcs init = Inr ?st"
    by code_simp
  have nj: "list_all (\<lambda>s. \<not> is_json s) ?srcs" by simp
  have rs: "resolve False [''Z'', ''M1'', ''X1'', ''D1''] ?st = Inr ([''D1''], [''M1''])"
    by (simp add: resolve_def d_m_sorted_columns_def d_m_sorted_def sorted_by_suffix_def
        py_int_lits)
  from only_roles_stored_and_resolved [OF run] nj rs
  have "list_all dm_keys (rows ?st)" "list_all is_d [''D1''] \<and> list_all is_m [''M1'']"
    by blast+
  with run nj rs show ?thesis by simp
qed

section \<open>The order of the Basic report (C3)\<close>

text \<open>
  C3 as stated: the body rows of the Basic report are sorted by the text under the first
  resolved dimension column. They are sorted by the text under the column named \<open>D1\<close>,
  whichever column is resolved first. With the columns \<open>D0\<close> and \<open>D1\<close> and the rows
  \<open>(b, a)\<close> and \<open>(a, b)\<close>, every row has the first resolved dimension column \<open>D0\<close>,
  and the body is \<open>b a\<close> then \<open>a b\<close>: its first column is not ascending.
\<close>

theorem basic_not_sorted_by_first_dimension:
  "read_csv ''data.csv'' [(1, [''D0'', ''D1'']), (2, [''b'', ''a'']), (3, [''a'', ''b''])] init =
     Inr \<lparr>rows = [[(''D0'', PStr ''b''), (''D1'', PStr ''a'')],
                  [(''D0'', PStr ''a''), (''D1'', PStr ''b'')]],
          columns = {''D0'', ''D1''}, common_columns = [{''D0'', ''D1''}], printed = []\<rparr> \<and>
   resolve False [''D0'', ''D1'']
     \<lparr>rows = [[(''D0'', PStr ''b''), (''D1'', PStr ''a'')],
              [(''D0'', PStr ''a''), (''D1'', PStr ''b'')]],
      columns = {''D0'', ''D1''}, common_columns = [{''D0'', ''D1''}], printed = []\<rparr> =
     Inr ([''D0'', ''D1''], []) \<and>
   write_tsv_basic False [''D0'', ''D1'']
     \<lparr>rows = [[(''D0'', PStr ''b''), (''D1'', PStr ''a'')],
              [(''D0'', PStr ''a''), (''D1'', PStr ''b'')]],
      columns = {''D0'', ''D1''}, common_columns = [{''D0'', ''D1''}], printed = []\<rparr> =
     Inr [[PStr ''D0'', PStr ''D1''], [PStr ''b'', PStr ''a''], [PStr ''a'', PStr ''b'']] \<and>
   \<not> sorted (map hd (tl [[PStr ''D0'', PStr ''D1''], [PStr ''b'', PStr ''a''],
                          [PStr ''a'', PStr ''b'']]))"
  by code_simp

text \<open>
  C3, amended. For every state and either policy under which the columns resolve, and in
  which every row has a text under the column named \<open>D1\<close>: the Basic report is the header
  followed by the rendering of all rows, sorted ascending by the text under \<open>D1\<close> in plain
  lexicographic string order, rows of equal text keeping their order.
\<close>

theorem basic_sorted_by_D1:
  assumes "resolve common it st = Inr (d, m)"
    and "\<forall>r\<in>set (rows st). \<exists>s. map_of r ''D1'' = Some (PStr s)"
  shows "write_tsv_basic common it st =
           Inr (map PStr (d @ m) # map (out_row (d @ m)) (sort_key d1_text (rows st))) \<and>
         sorted (map d1_text (sort_key d1_text (rows st))) \<and>
         mset (sort_key d1_text (rows st)) = mset (rows st)"
  using assms by (simp add: write_tsv_basic_def sorted_rows_text)

theorem basic_sorted_by_D1_witness:
  "resolve False [''D0'', ''D1'']
     \<lparr>rows = [[(''D0'', PStr ''a''), (''D1'', PStr ''9'')],
              [(''D0'', PStr ''b''), (''D1'', PStr ''10'')]],
      columns = {''D0'', ''D1''}, common_columns = [{''D0'', ''D1''}], printed = []\<rparr> =
     Inr ([''D0'', ''D1''], []) \<and>
   list_all (\<lambda>r. map_of r ''D1'' = Some (PStr (d1_text r)))
     [[(''D0'', PStr ''a''), (''D1'', PStr ''9'')], [(''D0'', PStr ''b''), (''D1'', PStr ''10'')]] \<and>
   write_tsv_basic False [''D0'', ''D1'']
     \<lparr>rows = [[(''D0'', PStr ''a''), (''D1'', PStr ''9'')],
              [(''D0'', PStr ''b''), (''D1'', PStr ''10'')]],
      columns = {''D0'', ''D1''}, common_columns = [{''D0'', ''D1''}], printed = []\<rparr> =
     Inr [[PStr ''D0'', PStr ''D1''], [PStr ''b'', PStr ''10''], [PStr ''a'', PStr ''9'']]"
proof -
  let ?rows = "[[(''D0'', PStr ''a''), (''D1'', PStr ''9'')],
               [(''D0'', PStr ''b''), (''D1'', PStr ''10'')]]"
  let ?st = "\<lparr>rows = ?rows, columns = {''D0'', ''D1''}, common_columns = [{''D0'', ''D1''}],
              printed = []\<rparr>"
  have rs: "resolve False [''D0'', ''D1''] ?st = Inr ([''D0'', ''D1''], [])"
    by code_simp
  have d1: "\<forall>r\<in>set (rows ?st). \<exists>s. map_of r ''D1'' = Some (PStr s)"
    by simp
  have t: "list_all (\<lambda>r. map_of r ''D1'' = Some (PStr (d1_text r))) ?rows"
    by (simp add: d1_text_def)
  have s: "map (out_row ([''D0'', ''D1''] @ [])) (sort_key d1_text ?rows) =
             [[PStr ''b'', PStr ''10''], [PStr ''a'', PStr ''9'']]"
    by code_simp
  have r0: "rows ?st = ?rows" by simp
  note w = basic_sorted_by_D1 [OF rs d1, unfolded r0, THEN conjunct1]
  have "write_tsv_basic False [''D0'', ''D1''] ?st =
          Inr [[PStr ''D0'', PStr ''D1''], [PStr ''b'', PStr ''10''], [PStr ''a'', PStr ''9'']]"
    using w unfolding s by simp
  with rs t show ?thesis by (intro conjI)
qed

section \<open>The flat-table scenario (C4)\<close>

text \<open>
  C4. Ingesting one CSV source with header \<open>D1,M1,M2\<close> and data rows \<open>(a,3,5)\<close> and
  \<open>(b,x,2)\<close>, where \<open>x\<close> is not an integer literal, yields a diagnostic for
  \<open>(b, M1, x)\<close> (the value \<open>x\<close>, column \<open>M1\<close>, at the reader's line 3); the stored rows
  \<open>{D1:a, M1:3, M2:5}\<close> and \<open>{D1:b, M2:2}\<close>; a Basic union-columns report with body
  \<open>a 3 5\<close> then \<open>b - 2\<close>; and an Advanced union-columns report with header
  \<open>D1 MS1 MS2\<close> and the lines \<open>a 3 5\<close> and \<open>b 0 2\<close>. This holds in whatever order the
  set of columns is visited.
\<close>

theorem csv_scenario:
  fixes x path :: string and it :: "string list"
  defines "st \<equiv> \<lparr>rows = [[(''D1'', PStr ''a''), (''M1'', PInt 3), (''M2'', PInt 5)],
                         [(''D1'', PStr ''b''), (''M2'', PInt 2)]],
                 columns = {''D1'', ''M1'', ''M2''},
                 common_columns = [{''D1'', ''M1'', ''M2''}],
                 printed = [CsvDiag x path ''M1'' 3]\<rparr>"
  assumes x: "py_int x = None" and it: "iterates (columns st) it"
  shows "read_csv path [(1, [''D1'', ''M1'', ''M2'']), (2, [''a'', ''3'', ''5'']),
                        (3, [''b'', x, ''2''])] init = Inr st \<and>
         write_tsv_basic False it st =
           Inr [[PStr ''D1'', PStr ''M1'', PStr ''M2''],
                [PStr ''a'', PInt 3, PInt 5],
                [PStr ''b'', PStr ''-'', PInt 2]] \<and>
         write_tsv_advanced False it st =
           Inr [[PStr ''D1'', PStr ''MS1'', PStr ''MS2''],
                [PStr ''a'', PInt 3, PInt 5],
                [PStr ''b'', PInt 0, PInt 2]]"
proof -
  have rd: "read_csv path [(1, [''D1'', ''M1'', ''M2'']), (2, [''a'', ''3'', ''5'']),
                           (3, [''b'', x, ''2''])] init = Inr st"
    by (simp add: read_csv_def init_def st_def x py_int_lits)
  have it0: "iterates (columns st) [''D1'', ''M1'', ''M2'']"
    by (simp add: iterates_def st_def)
  have sk: "suffix_key ''D1'' = 1" "suffix_key ''M1'' = 1" "suffix_key ''M2'' = 2"
    by (simp_all add: suffix_key_def py_int_lits)
  have inj: "inj_on suffix_key {c \<in> columns st. is_d c}"
    "inj_on suffix_key {c \<in> columns st. is_m c}"
    by (auto simp add: inj_on_def st_def is_d_def is_m_def sk)
  have "d_m_sorted it = d_m_sorted [''D1'', ''M1'', ''M2'']"
    using it it0 inj by (rule d_m_sorted_iterates)
  also have "\<dots> = Inr ([''D1''], [''M1'', ''M2''])"
    by (simp add: d_m_sorted_def sorted_by_suffix_def py_int_lits)
  finally have rs: "resolve False it st = Inr ([''D1''], [''M1'', ''M2''])"
    by (simp add: resolve_def d_m_sorted_columns_def)
  have b: "write_tsv_basic False it st =
           Inr [[PStr ''D1'', PStr ''M1'', PStr ''M2''],
                [PStr ''a'', PInt 3, PInt 5],
                [PStr ''b'', PStr ''-'', PInt 2]]"
    unfolding write_tsv_basic_def rs
    by (simp add: st_def sorted_rows_def out_row_def py_get_def)
  have a: "write_tsv_advanced False it st =
           Inr [[PStr ''D1'', PStr ''MS1'', PStr ''MS2''],
                [PStr ''a'', PInt 3, PInt 5],
                [PStr ''b'', PInt 0, PInt 2]]"
    unfolding write_tsv_advanced_def rs
    by (simp add: st_def get_data_advanced_def sorted_keys_def py_get_def)
  from rd b a show ?thesis by simp
qed

theorem csv_scenario_witness:
  "py_int ''x'' = None \<and>
   iterates {''D1'', ''M1'', ''M2''} [''M2'', ''D1'', ''M1''] \<and>
   read_csv ''data.csv'' [(1, [''D1'', ''M1'', ''M2'']), (2, [''a'', ''3'', ''5'']),
                          (3, [''b'', ''x'', ''2''])] init =
     Inr \<lparr>rows = [[(''D1'', PStr ''a''), (''M1'', PInt 3), (''M2'', PInt 5)],
                  [(''D1'', PStr ''b''), (''M2'', PInt 2)]],
          columns = {''D1'', ''M1'', ''M2''},
          common_columns = [{''D1'', ''M1'', ''M2''}],
          printed = [CsvDiag ''x'' ''data.csv'' ''M1'' 3]\<rparr> \<and>
   write_tsv_basic False [''M2'', ''D1'', ''M1'']
     \<lparr>rows = [[(''D1'', PStr ''a''), (''M1'', PInt 3), (''M2'', PInt 5)],
              [(''D1'', PStr ''b''), (''M2'', PInt 2)]],
      columns = {''D1'', ''M1'', ''M2''},
      common_columns = [{''D1'', ''M1'', ''M2''}],
      printed = [CsvDiag ''x'' ''data.csv'' ''M1'' 3]\<rparr> =
     Inr [[PStr ''D1'', PStr ''M1'', PStr ''M2''],
          [PStr ''a'', PInt 3, PInt 5],
          [PStr ''b'', PStr ''-'', PInt 2]] \<and>
   write_tsv_advanced False [''M2'', ''D1'', ''M1'']
     \<lparr>rows = [[(''D1'', PStr ''a''), (''M1'', PInt 3), (''M2'', PInt 5)],
              [(''D1'', PStr ''b''), (''M2'', PInt 2)]],
      columns = {''D1'', ''M1'', ''M2''},
      common_columns = [{''D1'', ''M1'', ''M2''}],
      printed = [CsvDiag ''x'' ''data.csv'' ''M1'' 3]\<rparr> =
     Inr [[PStr ''D1'', PStr ''MS1'', PStr ''MS2''],
          [PStr ''a'', PInt 3, PInt 5],
          [PStr ''b'', PInt 0, PInt 2]]"
proof -
  have x: "py_int ''x'' = None" by (rule py_int_lits)
  have i: "iterates {''D1'', ''M1'', ''M2''} [''M2'', ''D1'', ''M1'']"
    by (auto simp add: iterates_def)
  from csv_scenario [where x = "''x''" and it = "[''M2'', ''D1'', ''M1'']" and path = "''data.csv''"] x i
  show ?thesis by simp
qed

section \<open>The Advanced report (C5)\<close>



section \<open>Intersection within union (C6)\<close>

text \<open>
  C6. For every state reached by a sequence of reading calls, and whatever the orders in
  which the two sets are visited: when the union policy resolves, to \<open>ud\<close> and \<open>um\<close>,
  the intersection policy resolves too, and its dimension list and its measure list are
  each, as sets of column names, within the corresponding union list.
\<close>

theorem intersection_within_union:
  assumes run: "ingest_all srcs init = Inr st"
    and itu: "iterates (columns st) itu" and itc: "iterates (common_set st) itc"
    and u: "d_m_sorted_columns itu = Inr (ud, um)"
  shows "\<exists>cd cm. d_m_sorted_common_columns itc st = Inr (cd, cm) \<and>
                 set cd \<subseteq> set ud \<and> set cm \<subseteq> set um"
proof -
  have "cc_inv init" by (simp add: cc_inv_def init_def)
  with run have "cc_inv st" by (rule ingest_all_cc)
  then have sub: "set itc \<subseteq> set itu"
    using itu itc common_set_subset by (auto simp add: iterates_def)
  from u have ok: "[] \<notin> set itu" "\<forall>c\<in>set itu. (is_d c \<or> is_m c) \<longrightarrow> py_int (tl c) \<noteq> None"
    and ud: "ud = sort_key suffix_key (filter is_d itu)"
    and um: "um = sort_key suffix_key (filter is_m itu)"
    by (auto simp add: d_m_sorted_columns_def d_m_sorted_char split: if_splits)
  show ?thesis
  proof (cases "common_columns st = []")
    case True
    then show ?thesis by (simp add: d_m_sorted_common_columns_def)
  next
    case False
    from ok sub have "d_m_sorted itc = Inr (sort_key suffix_key (filter is_d itc), sort_key suffix_key (filter is_m itc))"
      unfolding d_m_sorted_char by auto
    with False sub ud um show ?thesis
      by (auto simp add: d_m_sorted_common_columns_def)
  qed
qed


theorem intersection_within_union_witness:
  "ingest_all [Csv ''a.csv'' [(1, [''D1'', ''D2'', ''M1''])],
               Csv ''b.csv'' [(1, [''M1'', ''D1''])]] init =
     Inr \<lparr>rows = [], columns = {''D1'', ''D2'', ''M1''},
          common_columns = [{''D1'', ''D2'', ''M1''}, {''M1'', ''D1''}], printed = []\<rparr> \<and>
   iterates {''D1'', ''D2'', ''M1''} [''M1'', ''D2'', ''D1''] \<and>
   iterates {''D1'', ''M1''} [''M1'', ''D1''] \<and>
   d_m_sorted_columns [''M1'', ''D2'', ''D1''] = Inr ([''D1'', ''D2''], [''M1'']) \<and>
   (\<exists>cd cm. d_m_sorted_common_columns [''M1'', ''D1'']
       \<lparr>rows = [], columns = {''D1'', ''D2'', ''M1''},
        common_columns = [{''D1'', ''D2'', ''M1''}, {''M1'', ''D1''}], printed = []\<rparr>
         = Inr (cd, cm) \<and>
       set cd \<subseteq> set [''D1'', ''D2''] \<and> set cm \<subseteq> set [''M1''])"
proof -
  let ?st = "\<lparr>rows = [], columns = {''D1'', ''D2'', ''M1''},
              common_columns = [{''D1'', ''D2'', ''M1''}, {''M1'', ''D1''}], printed = []\<rparr>"
  have run: "ingest_all [Csv ''a.csv'' [(1, [''D1'', ''D2'', ''M1''])],
                         Csv ''b.csv'' [(1, [''M1'', ''D1''])]] init = Inr ?st"
    by code_simp
  have iu: "iterates {''D1'', ''D2'', ''M1''} [''M1'', ''D2'', ''D1'']"
    by (auto simp add: iterates_def)
  have ic: "iterates {''D1'', ''M1''} [''M1'', ''D1'']"
    by (auto simp add: iterates_def)
  have u: "d_m_sorted_columns [''M1'', ''D2'', ''D1''] = Inr ([''D1'', ''D2''], [''M1''])"
    by (simp add: d_m_sorted_columns_def d_m_sorted_def sorted_by_suffix_def py_int_lits)
  have iu': "iterates (columns ?st) [''M1'', ''D2'', ''D1'']" using iu by simp
  have ic': "iterates (common_set ?st) [''M1'', ''D1'']"
    by (auto simp add: iterates_def common_set_def)
  from intersection_within_union [OF run iu' ic' u] run iu ic u
  show ?thesis by simp
qed

section \<open>Permuting the calls (C7)\<close>

text \<open>
  C7 as stated: permuting the reading calls never changes the column lists resolved under
  the intersection policy. It can, where two names of one role have the same suffix value.
  Take one file with header \<open>D1,D01\<close> and another with header \<open>D01,D1\<close>; both names
  have the sort key 1, and the stable \<open>sorted\<close> leaves them in the order in which the
  loop visits the intersection. When the two names fall into the same slot of the hash
  table, the intersection keeps the order of the set recorded second: it is visited as
  \<open>D01, D1\<close> after the calls in the first order and as \<open>D1, D01\<close> after the calls in the
  other order, and the resolved dimension lists differ.
\<close>

theorem permuted_calls_change_tied_order:
  "ingest_all [Csv ''a.csv'' [(1, [''D1'', ''D01''])],
               Csv ''b.csv'' [(1, [''D01'', ''D1''])]] init =
     Inr \<lparr>rows = [], columns = {''D1'', ''D01''},
          common_columns = [{''D1'', ''D01''}, {''D01'', ''D1''}], printed = []\<rparr> \<and>
   ingest_all [Csv ''b.csv'' [(1, [''D01'', ''D1''])],
               Csv ''a.csv'' [(1, [''D1'', ''D01''])]] init =
     Inr \<lparr>rows = [], columns = {''D01'', ''D1''},
          common_columns = [{''D01'', ''D1''}, {''D1'', ''D01''}], printed = []\<rparr> \<and>
   iterates (common_set \<lparr>rows = [], columns = {''D1'', ''D01''},
               common_columns = [{''D1'', ''D01''}, {''D01'', ''D1''}], printed = []\<rparr>)
     [''D01'', ''D1''] \<and>
   iterates (common_set \<lparr>rows = [], columns = {''D01'', ''D1''},
               common_columns = [{''D01'', ''D1''}, {''D1'', ''D01''}], printed = []\<rparr>)
     [''D1'', ''D01''] \<and>
   d_m_sorted_common_columns [''D01'', ''D1'']
     \<lparr>rows = [], columns = {''D1'', ''D01''},
      common_columns = [{''D1'', ''D01''}, {''D01'', ''D1''}], printed = []\<rparr> =
     Inr ([''D01'', ''D1''], []) \<and>
   d_m_sorted_common_columns [''D1'', ''D01'']
     \<lparr>rows = [], columns = {''D01'', ''D1''},
      common_columns = [{''D01'', ''D1''}, {''D1'', ''D01''}], printed = []\<rparr> =
     Inr ([''D1'', ''D01''], [])"
  by code_simp

text \<open>
  C7, amended. The sources are those of the model: CSV and XML sources, and JSON sources
  whose values are strings, integers or null. (A JSON number with a fraction is stored
  unchanged under an \<open>M\<close> key by the assignment after the \<open>if\<close> of \<open>read_json\<close>, and
  floating-point sums depend on the order of the rows; nothing is claimed for such
  sources.) Let the calls of \<open>srcs'\<close> be those of \<open>srcs\<close> in another order, and let the
  calls in the order \<open>srcs\<close> all complete. Then so do the calls in the order \<open>srcs'\<close>;
  for any dimension and measure columns the aggregation step gives the same outcome, the
  same sums under the same Group Keys; the set of columns resolved under either policy is
  the same; and the column lists resolved under either policy are the same, whatever the
  orders in which the sets are visited, provided no two names of one role in the resolved
  set have the same suffix value.
\<close>

theorem permuted_calls:
  assumes "mset srcs' = mset srcs" and "ingest_all srcs init = Inr st"
  shows "\<exists>st'. ingest_all srcs' init = Inr st' \<and>
           (\<forall>d m. same_groups (get_data_advanced st' d m) (get_data_advanced st d m)) \<and>
           (\<forall>common. resolved_set common st' = resolved_set common st) \<and>
           (\<forall>common it it'. iterates (resolved_set common st) it \<and>
                iterates (resolved_set common st') it' \<and> no_ties (resolved_set common st) \<longrightarrow>
                resolve common it' st' = resolve common it st)"
proof -
  from permuted_run[OF assms] obtain st' where
    r: "ingest_all srcs' init = Inr st'" and
    m: "mset (rows st') = mset (rows st)" "columns st' = columns st"
       "mset (common_columns st') = mset (common_columns st)"
    by blast
  note cs = common_set_mset[OF m(3)]
  have rs: "resolved_set common st' = resolved_set common st" for common
    using cs m(2) by (simp add: resolved_set_def)
  have g: "same_groups (get_data_advanced st' d m) (get_data_advanced st d m)" for d m
    using m(1) by (rule get_data_advanced_mset)
  have l: "resolve common it' st' = resolve common it st"
    if "iterates (resolved_set common st) it \<and> iterates (resolved_set common st') it' \<and>
        no_ties (resolved_set common st)" for common it it'
  proof -
    from that have i: "iterates (resolved_set common st) it'" "iterates (resolved_set common st) it"
      and n: "inj_on suffix_key {c \<in> resolved_set common st. is_d c}"
             "inj_on suffix_key {c \<in> resolved_set common st. is_m c}"
      by (simp_all add: rs no_ties_def)
    from i n have "d_m_sorted it' = d_m_sorted it" by (rule d_m_sorted_iterates)
    with cs show ?thesis
      by (simp add: resolve_def d_m_sorted_common_columns_def d_m_sorted_columns_def)
  qed
  show ?thesis
  proof (intro exI[of _ st'] conjI allI impI)
    show "ingest_all srcs' init = Inr st'" by (rule r)
    show "same_groups (get_data_advanced st' d m) (get_data_advanced st d m)" for d m by (rule g)
    show "resolved_set common st' = resolved_set common st" for common by (rule rs)
    show "resolve common it' st' = resolve common it st"
      if "iterates (resolved_set common st) it \<and> iterates (resolved_set common st') it' \<and>
          no_ties (resolved_set common st)" for common it it'
      using that by (rule l)
  qed
qed

theorem permuted_calls_witness:
  "mset [Xml ''b.xml'' [(Some ''D1'', [Some ''a'']), (Some ''M1'', [Some ''2''])],
         Csv ''a.csv'' [(1, [''D1'', ''M1'']), (2, [''a'', ''1''])]] =
   mset [Csv ''a.csv'' [(1, [''D1'', ''M1'']), (2, [''a'', ''1''])],
         Xml ''b.xml'' [(Some ''D1'', [Some ''a'']), (Some ''M1'', [Some ''2''])]] \<and>
   ingest_all [Csv ''a.csv'' [(1, [''D1'', ''M1'']), (2, [''a'', ''1''])],
               Xml ''b.xml'' [(Some ''D1'', [Some ''a'']), (Some ''M1'', [Some ''2''])]] init =
     Inr \<lparr>rows = [[(''D1'', PStr ''a''), (''M1'', PInt 1)],
                  [(''D1'', PStr ''a''), (''M1'', PInt 2)]],
          columns = {''D1'', ''M1''}, common_columns = [{''D1'', ''M1''}, {''D1'', ''M1''}],
          printed = []\<rparr> \<and>
   (\<exists>st'. ingest_all [Xml ''b.xml'' [(Some ''D1'', [Some ''a'']), (Some ''M1'', [Some ''2''])],
                       Csv ''a.csv'' [(1, [''D1'', ''M1'']), (2, [''a'', ''1''])]] init = Inr st' \<and>
      same_groups (get_data_advanced st' [''D1''] [''M1''])
        (Inr [([PStr ''a''], [3])]) \<and>
      resolve True [''M1'', ''D1''] st' = Inr ([''D1''], [''M1'']))"
proof -
  let ?srcs = "[Csv ''a.csv'' [(1, [''D1'', ''M1'']), (2, [''a'', ''1''])],
                Xml ''b.xml'' [(Some ''D1'', [Some ''a'']), (Some ''M1'', [Some ''2''])]]"
  let ?srcs' = "[Xml ''b.xml'' [(Some ''D1'', [Some ''a'']), (Some ''M1'', [Some ''2''])],
                 Csv ''a.csv'' [(1, [''D1'', ''M1'']), (2, [''a'', ''1''])]]"
  let ?st = "\<lparr>rows = [[(''D1'', PStr ''a''), (''M1'', PInt 1)],
                      [(''D1'', PStr ''a''), (''M1'', PInt 2)]],
              columns = {''D1'', ''M1''}, common_columns = [{''D1'', ''M1''}, {''D1'', ''M1''}],
              printed = []\<rparr>"
  have p: "mset ?srcs' = mset ?srcs" by (simp add: add_mset_commute)
  have run: "ingest_all ?srcs init = Inr ?st" by code_simp
  have g: "get_data_advanced ?st [''D1''] [''M1''] = Inr [([PStr ''a''], [3])]" by code_simp
  have rs: "resolve True [''D1'', ''M1''] ?st = Inr ([''D1''], [''M1''])" by code_simp
  have cs: "resolved_set True ?st = {''D1'', ''M1''}"
    by (simp add: resolved_set_def common_set_def)
  have i: "iterates (resolved_set True ?st) [''D1'', ''M1'']"
    "iterates (resolved_set True ?st) [''M1'', ''D1'']"
    unfolding cs by (auto simp add: iterates_def)
  have sk: "suffix_key ''D1'' = 1" "suffix_key ''M1'' = 1"
    by (simp_all add: suffix_key_def py_int_lits)
  have n: "no_ties (resolved_set True ?st)"
    unfolding cs by (auto simp add: no_ties_def inj_on_def is_d_def is_m_def)
  from permuted_calls [OF p run] obtain st' where
    r: "ingest_all ?srcs' init = Inr st'" and
    a: "\<forall>d m. same_groups (get_data_advanced st' d m) (get_data_advanced ?st d m)" and
    b: "\<forall>common. resolved_set common st' = resolved_set common ?st" and
    c: "\<forall>common it it'. iterates (resolved_set common ?st) it \<and>
            iterates (resolved_set common st') it' \<and> no_ties (resolved_set common ?st) \<longrightarrow>
            resolve common it' st' = resolve common it ?st"
    by blast
  from a have 1: "same_groups (get_data_advanced st' [''D1''] [''M1'']) (Inr [([PStr ''a''], [3])])"
    unfolding g [symmetric] by blast
  from b have "iterates (resolved_set True st') [''M1'', ''D1'']" using i(2) by simp
  with c i(1) n have "resolve True [''M1'', ''D1''] st' = resolve True [''D1'', ''M1''] ?st"
    by blast
  with rs have 2: "resolve True [''M1'', ''D1''] st' = Inr ([''D1''], [''M1''])" by simp
  from r 1 2 have "\<exists>st'. ingest_all ?srcs' init = Inr st' \<and>
      same_groups (get_data_advanced st' [''D1''] [''M1'']) (Inr [([PStr ''a''], [3])]) \<and>
      resolve True [''M1'', ''D1''] st' = Inr ([''D1''], [''M1''])"
    by blast
  with p run show ?thesis by (intro conjI)
qed

section \<open>Malformed column names (C8)\<close>

text \<open>
  C8 as the specification states it: a name starting with \<open>D\<close> or \<open>M\<close> whose suffix is
  not a non-negative integer literal makes resolving abort. It does not: the sort key is
  \<open>int(y[1:])\<close>, and \<open>int\<close> accepts a sign. With the single column \<open>D-1\<close>, whose
  suffix \<open>-1\<close> is no non-negative literal, both policies resolve to \<open>(D-1,)\<close> and \<open>()\<close>.
\<close>

theorem negative_suffix_resolves:
  "is_d ''D-1'' \<and> \<not> nonneg_literal (tl ''D-1'') \<and>
   read_csv ''data.csv'' [(1, [''D-1''])] init =
     Inr \<lparr>rows = [], columns = {''D-1''}, common_columns = [{''D-1''}], printed = []\<rparr> \<and>
   iterates {''D-1''} [''D-1''] \<and>
   resolve False [''D-1'']
     \<lparr>rows = [], columns = {''D-1''}, common_columns = [{''D-1''}], printed = []\<rparr> =
     Inr ([''D-1''], []) \<and>
   resolve True [''D-1'']
     \<lparr>rows = [], columns = {''D-1''}, common_columns = [{''D-1''}], printed = []\<rparr> =
     Inr ([''D-1''], [])"
  by code_simp

text \<open>
  C8, amended. Let \<open>it\<close> be the order in which the set being resolved is visited, under
  either policy. Resolving aborts exactly when the set holds the empty name (then
  \<open>column[0]\<close> raises) or a name starting with \<open>D\<close> or \<open>M\<close> whose suffix \<open>int\<close> does not
  accept; on text of code points below 256 \<open>int\<close> accepts optional surrounding whitespace, an optional sign and decimal
  digits with single underscores between them, up to the interpreter's limit of 4300
  digits. So resolving never aborts when the suffix of every name is a non-negative integer
  literal of at most 4300 digits, and it aborts on a name of either role whose suffix is a
  longer literal. When resolving returns, each list holds the names of its role in
  ascending order of the integer value of the suffix, names of equal value in the order
  visited; a signed suffix such as \<open>-1\<close> sorts by its negative value.
\<close>

theorem resolve_aborts_on_unparsed_suffix:
  assumes "iterates (resolved_set common st) it"
  shows "((\<exists>e. resolve common it st = Inl e) \<longleftrightarrow>
           ([] \<in> set it \<or> (\<exists>c\<in>set it. (is_d c \<or> is_m c) \<and> py_int (tl c) = None))) \<and>
         ((\<forall>c\<in>set it. nonneg_literal (tl c) \<and> length (tl c) \<le> max_str_digits) \<longrightarrow>
            (\<exists>d m. resolve common it st = Inr (d, m))) \<and>
         ((\<exists>c\<in>set it. (is_d c \<or> is_m c) \<and> nonneg_literal (tl c) \<and>
                       max_str_digits < length (tl c)) \<longrightarrow>
            (\<exists>e. resolve common it st = Inl e)) \<and>
         (\<forall>d m. resolve common it st = Inr (d, m) \<longrightarrow>
            d = sort_key suffix_key (filter is_d it) \<and>
            m = sort_key suffix_key (filter is_m it))"
proof -
  have e: "resolve common it st = d_m_sorted it"
  proof (cases "common \<and> common_columns st = []")
    case True
    with assms have "it = []" by (simp add: resolved_set_def common_set_Nil iterates_def)
    with True show ?thesis
      by (simp add: resolve_def d_m_sorted_common_columns_def d_m_sorted_char)
  next
    case False
    then show ?thesis
      by (auto simp add: resolve_def d_m_sorted_common_columns_def d_m_sorted_columns_def)
  qed
  have 1: "(\<exists>e. resolve common it st = Inl e) \<longleftrightarrow>
           ([] \<in> set it \<or> (\<exists>c\<in>set it. (is_d c \<or> is_m c) \<and> py_int (tl c) = None))"
    unfolding e d_m_sorted_char by auto
  have 2: "\<exists>d m. resolve common it st = Inr (d, m)"
    if a: "\<forall>c\<in>set it. nonneg_literal (tl c) \<and> length (tl c) \<le> max_str_digits"
  proof -
    from a have "[] \<notin> set it" by (auto simp add: nonneg_literal_def)
    moreover from a nonneg_literal_parses have "\<forall>c\<in>set it. py_int (tl c) \<noteq> None"
      by blast
    ultimately show ?thesis unfolding e d_m_sorted_char by auto
  qed
  have 3: "\<exists>e. resolve common it st = Inl e"
    if a: "\<exists>c\<in>set it. (is_d c \<or> is_m c) \<and> nonneg_literal (tl c) \<and>
                       max_str_digits < length (tl c)"
  proof -
    from a obtain c where "c \<in> set it" "is_d c \<or> is_m c" "py_int (tl c) = None"
      using long_literal_rejected by blast
    then show ?thesis unfolding 1 by blast
  qed
  have 4: "d = sort_key suffix_key (filter is_d it) \<and> m = sort_key suffix_key (filter is_m it)"
    if "resolve common it st = Inr (d, m)" for d m
    using that unfolding e d_m_sorted_char by (auto split: if_splits)
  from 1 2 3 4 show ?thesis by blast
qed

theorem resolve_aborts_on_unparsed_suffix_witness:
  "iterates (resolved_set False
     \<lparr>rows = [], columns = {''Dx''}, common_columns = [{''Dx''}], printed = []\<rparr>) [''Dx''] \<and>
   is_d ''Dx'' \<and> py_int (tl ''Dx'') = None \<and>
   (\<exists>e. resolve False [''Dx'']
     \<lparr>rows = [], columns = {''Dx''}, common_columns = [{''Dx''}], printed = []\<rparr> = Inl e) \<and>
   iterates (resolved_set True
     \<lparr>rows = [], columns = {''D1'', ''M2''}, common_columns = [{''D1'', ''M2''}],
      printed = []\<rparr>) [''D1'', ''M2''] \<and>
   nonneg_literal (tl ''D1'') \<and> nonneg_literal (tl ''M2'') \<and>
   (\<exists>d m. resolve True [''D1'', ''M2'']
     \<lparr>rows = [], columns = {''D1'', ''M2''}, common_columns = [{''D1'', ''M2''}],
      printed = []\<rparr> = Inr (d, m)) \<and>
   iterates (resolved_set False
     \<lparr>rows = [], columns = {CHR ''D'' # replicate 4301 (CHR ''0'')},
      common_columns = [{CHR ''D'' # replicate 4301 (CHR ''0'')}], printed = []\<rparr>)
     [CHR ''D'' # replicate 4301 (CHR ''0'')] \<and>
   nonneg_literal (replicate 4301 (CHR ''0'')) \<and>
   max_str_digits < length (replicate 4301 (CHR ''0'')) \<and>
   (\<exists>e. resolve False [CHR ''D'' # replicate 4301 (CHR ''0'')]
     \<lparr>rows = [], columns = {CHR ''D'' # replicate 4301 (CHR ''0'')},
      common_columns = [{CHR ''D'' # replicate 4301 (CHR ''0'')}], printed = []\<rparr> = Inl e) \<and>
   iterates (resolved_set False
     \<lparr>rows = [], columns = {''D0'', ''D-1''}, common_columns = [{''D0'', ''D-1''}],
      printed = []\<rparr>) [''D0'', ''D-1''] \<and>
   resolve False [''D0'', ''D-1'']
     \<lparr>rows = [], columns = {''D0'', ''D-1''}, common_columns = [{''D0'', ''D-1''}],
      printed = []\<rparr> = Inr ([''D-1'', ''D0''], []) \<and>
   sort_key suffix_key (filter is_d [''D0'', ''D-1'']) = [''D-1'', ''D0'']"
proof -
  let ?A = "\<lparr>rows = [], columns = {''Dx''}, common_columns = [{''Dx''}], printed = []\<rparr>"
  let ?B = "\<lparr>rows = [], columns = {''D1'', ''M2''}, common_columns = [{''D1'', ''M2''}],
             printed = []\<rparr>"
  let ?long = "CHR ''D'' # replicate 4301 (CHR ''0'')"
  let ?C = "\<lparr>rows = [], columns = {?long}, common_columns = [{?long}], printed = []\<rparr>"
  let ?E = "\<lparr>rows = [], columns = {''D0'', ''D-1''}, common_columns = [{''D0'', ''D-1''}],
             printed = []\<rparr>"
  have a: "iterates (resolved_set False ?A) [''Dx'']"
    by (simp add: iterates_def resolved_set_def)
  have b: "iterates (resolved_set True ?B) [''D1'', ''M2'']"
    by (simp add: iterates_def resolved_set_def common_set_def)
  have c: "iterates (resolved_set False ?C) [?long]"
    by (simp add: iterates_def resolved_set_def)
  have d: "iterates (resolved_set False ?E) [''D0'', ''D-1'']"
    by (auto simp add: iterates_def resolved_set_def)
  have x: "is_d ''Dx''" "py_int (tl ''Dx'') = None"
    by (simp_all add: is_d_def py_int_lits)
  have n: "nonneg_literal (tl ''D1'')" "nonneg_literal (tl ''M2'')"
    "length (tl ''D1'') \<le> max_str_digits" "length (tl ''M2'') \<le> max_str_digits"
    by (simp_all add: nonneg_literal_def digit_of_def max_str_digits_def)
  have l: "nonneg_literal (replicate 4301 (CHR ''0''))"
    "max_str_digits < length (replicate 4301 (CHR ''0''))" "is_d ?long"
    by (simp_all add: nonneg_literal_def digit_of_def max_str_digits_def list_all_iff is_d_def)
  have r: "resolve False [''D0'', ''D-1''] ?E = Inr ([''D-1'', ''D0''], [])"
    by code_simp
  from resolve_aborts_on_unparsed_suffix [OF a] x
  have 1: "\<exists>e. resolve False [''Dx''] ?A = Inl e" by simp
  from resolve_aborts_on_unparsed_suffix [OF b] n
  have 2: "\<exists>d m. resolve True [''D1'', ''M2''] ?B = Inr (d, m)" by simp
  have m: "\<exists>c\<in>set [?long]. (is_d c \<or> is_m c) \<and> nonneg_literal (tl c) \<and>
             max_str_digits < length (tl c)"
    using l by simp
  from resolve_aborts_on_unparsed_suffix [OF c, THEN conjunct2, THEN conjunct2, THEN conjunct1] m
  have 3: "\<exists>e. resolve False [?long] ?C = Inl e" by (rule mp)
  from resolve_aborts_on_unparsed_suffix [OF d] r
  have 4: "sort_key suffix_key (filter is_d [''D0'', ''D-1'']) = [''D-1'', ''D0'']" by simp
  from a b c d x n(1,2) l(1,2) r 1 2 3 4 show ?thesis by (intro conjI)
qed

section \<open>No source ingested (C9)\<close>

text \<open>
  C9. When zero sources have been ingested, resolving under either policy returns two
  empty lists without error, and the Basic report and the Advanced report each consist of
  a single header row with no column and of no body row. The iteration order of an empty
  set is the empty list; the hypothesis says no more than that.
\<close>

theorem zero_sources_empty_reports:
  assumes "iterates (resolved_set common init) it"
  shows "ingest_all [] init = Inr init \<and>
         resolve common it init = Inr ([], []) \<and>
         write_tsv_basic common it init = Inr [[]] \<and>
         write_tsv_advanced common it init = Inr [[]]"
proof -
  have r: "resolve common it init = Inr ([], [])"
  proof (cases common)
    case True
    then show ?thesis
      by (simp add: resolve_def d_m_sorted_common_columns_def init_def)
  next
    case False
    with assms have "it = []"
      by (simp add: resolved_set_def init_def iterates_def)
    with False show ?thesis
      by (simp add: resolve_def d_m_sorted_columns_def d_m_sorted_def sorted_by_suffix_def)
  qed
  have b: "write_tsv_basic common it init = Inr [[]]"
    unfolding write_tsv_basic_def r by (simp add: sorted_rows_def init_def)
  have a: "write_tsv_advanced common it init = Inr [[]]"
    unfolding write_tsv_advanced_def r
    by (simp add: get_data_advanced_def sorted_keys_def init_def)
  from r b a show ?thesis by simp
qed

theorem zero_sources_empty_reports_witness:
  "iterates (resolved_set False init) [] \<and> iterates (resolved_set True init) [] \<and>
   resolve False [] init = Inr ([], []) \<and> resolve True [] init = Inr ([], []) \<and>
   write_tsv_basic False [] init = Inr [[]] \<and> write_tsv_basic True [] init = Inr [[]] \<and>
   write_tsv_advanced False [] init = Inr [[]] \<and> write_tsv_advanced True [] init = Inr [[]]"
proof -
  have u: "iterates (resolved_set False init) []"
    by (simp add: iterates_def resolved_set_def init_def)
  have c: "iterates (resolved_set True init) []"
    by (simp add: iterates_def resolved_set_def common_set_def init_def)
  from zero_sources_empty_reports [OF u] zero_sources_empty_reports [OF c] u c
  show ?thesis by simp
qed

section \<open>One row per XML document (C10)\<close>

text \<open>
  C10 as stated: when an object has more than one child, only the last child's text is
  stored for the object's column. Not under an \<open>M\<close> column whose last child does not
  parse: the \<open>continue\<close> after the diagnostic leaves the value of an earlier child in
  place. For the object \<open>M1\<close> with children \<open>3\<close> and \<open>x\<close> the row holds 3.
\<close>

theorem read_xml_keeps_earlier_child:
  "read_xml ''data.xml'' [(Some ''M1'', [Some ''3'', Some ''x''])] init =
     Inr \<lparr>rows = [[(''M1'', PInt 3)]], columns = {''M1''}, common_columns = [{''M1''}],
          printed = [XmlDiag ''x'' ''data.xml'' ''M1'']\<rparr>"
  by (simp add: read_xml_def init_def py_int_lits)

text \<open>
  C10, amended. A \<open>read_xml\<close> call that completes appends exactly one row and records
  exactly one set of columns, the names of all objects of the document, which it also adds
  to \<open>columns\<close>. The row merges all objects: under each column it holds the value
  assigned last in document order, and none if nothing was assigned. A child assigns its
  text under a \<open>D\<close> column, and its text parsed as an integer under an \<open>M\<close> column; a
  child under an \<open>M\<close> column whose text does not parse assigns nothing, so an earlier
  value stays.
\<close>

theorem read_xml_one_row_last_stored:
  assumes "read_xml path objs st = Inr st'"
  shows "\<exists>r. rows st' = rows st @ [r] \<and>
             common_columns st' = common_columns st @ [set (List.map_filter fst objs)] \<and>
             columns st' = columns st \<union> set (List.map_filter fst objs) \<and>
             (\<forall>c. map_of r c = last_option (xml_values c objs))"
proof -
  from assms obtain r common st1 where
    f: "read_xml_objects path objs [] {} st = Inr (r, common, st1)" and
    s: "st' = st1\<lparr>rows := rows st1 @ [r], common_columns := common_columns st1 @ [common]\<rparr>"
    by (auto simp add: read_xml_def split: sum.splits)
  have "map_of r c = last_option (xml_values c objs)" for c
    using read_xml_objects_map[OF f, of c] by (simp add: last_option_def)
  with read_xml_objects_map[OF f] s show ?thesis by simp
qed

theorem read_xml_one_row_last_stored_witness:
  "read_xml ''data.xml''
     [(Some ''D1'', [Some ''a'', Some ''b'']), (Some ''M1'', [Some ''3'', Some ''x''])] init =
     Inr \<lparr>rows = [[(''D1'', PStr ''b''), (''M1'', PInt 3)]], columns = {''D1'', ''M1''},
          common_columns = [{''D1'', ''M1''}],
          printed = [XmlDiag ''x'' ''data.xml'' ''M1'']\<rparr> \<and>
   (\<exists>r. [[(''D1'', PStr ''b''), (''M1'', PInt 3)]] = rows init @ [r] \<and>
        (\<forall>c. map_of r c =
           last_option (xml_values c
             [(Some ''D1'', [Some ''a'', Some ''b'']), (Some ''M1'', [Some ''3'', Some ''x''])])))"
proof -
  let ?objs = "[(Some ''D1'', [Some ''a'', Some ''b'']), (Some ''M1'', [Some ''3'', Some ''x''])]"
  let ?st = "\<lparr>rows = [[(''D1'', PStr ''b''), (''M1'', PInt 3)]], columns = {''D1'', ''M1''},
              common_columns = [{''D1'', ''M1''}],
              printed = [XmlDiag ''x'' ''data.xml'' ''M1'']\<rparr>"
  have run: "read_xml ''data.xml'' ?objs init = Inr ?st"
    by code_simp
  from read_xml_one_row_last_stored [OF run] run show ?thesis by auto
qed

end
